theory Spec2Isabelle
  imports Main "HOL-Library.Sublist"
begin

section \<open>The exposition handler (main.go)\<close>

text \<open>
  A Go \<open>error\<close> is represented by the text its \<open>Error()\<close> method returns; \<open>nil\<close> is
  \<open>None\<close> of \<open>error option\<close>.
\<close>

type_synonym error = string

text \<open>
  A \<open>time.Duration\<close> is a number of nanoseconds. A \<open>context.Context\<close> is either the
  context the HTTP server attached to the request (connection-scoped, no deadline) or a
  child made by \<open>context.WithTimeout\<close>.
\<close>

type_synonym duration = int

datatype "context" = ConnContext | WithTimeout "context" duration

fun bounded :: "context \<Rightarrow> bool" where
  "bounded ConnContext = False"
| "bounded (WithTimeout parent d) = True"

text \<open>
  \<open>http.Header.Get\<close> returns the first value stored under the key, or the empty
  string when there is none.
\<close>

type_synonym header = "string \<rightharpoonup> string"

definition Header_Get :: "header \<Rightarrow> string \<Rightarrow> string" where
  "Header_Get h key = (case h key of None \<Rightarrow> [] | Some v \<Rightarrow> v)"

record request =
  Header :: header
  Context :: "context"

text \<open>
  What one call of the handler function does, as far as the collection pipeline can see
  it: the key/value lines written to \<open>config.Logger\<close>, the context handed to
  \<open>collector.New\<close> (line 48) and the request handed to \<open>ServeHTTP\<close> (line 56).
\<close>

record handled =
  logged :: "(string \<times> string) list list"
  New_ctx :: "context"
  ServeHTTP_r :: request

text \<open>
  \<open>newHandler\<close>, lines 29 to 58. \<open>strconv.ParseFloat\<close> and the conversion
  \<open>time.Duration(timeoutSeconds*float64(time.Second))\<close> are library arithmetic on
  \<open>float64\<close>; they are the parameters \<open>ParseFloat\<close> and \<open>Duration\<close>, over any type
  \<open>'f\<close> of parsed numbers.

  Line 40 reads \<open>ctx, cancel := context.WithTimeout(ctx, ...)\<close> inside the \<open>else\<close>
  block. Both names on the left are new in that block, so this \<open>ctx\<close> is a fresh
  variable (\<open>ctx'\<close> below) that lives until the closing brace of line 44; the \<open>ctx\<close>
  of line 32 is not assigned. Line 43 stores the new context in \<open>r\<close>, which was
  declared outside the block and is assigned. Line 48 is outside the block and reads the
  \<open>ctx\<close> of line 32.
\<close>

definition newHandler ::
  "(string \<Rightarrow> error + 'f) \<Rightarrow> ('f \<Rightarrow> duration) \<Rightarrow> request \<Rightarrow> handled" where
  "newHandler ParseFloat Duration r =
     (let ctx = Context r;
          v = Header_Get (Header r) ''X-Prometheus-Scrape-Timeout-Seconds''
      in if v \<noteq> [] then
           (case ParseFloat v of
              Inl err \<Rightarrow>
                \<lparr>logged = [[(''level'', ''error''),
                             (''msg'', ''Failed to parse timeout from Prometheus header''),
                             (''err'', err)]],
                 New_ctx = ctx,
                 ServeHTTP_r = r\<rparr>
            | Inr timeoutSeconds \<Rightarrow>
                (let ctx' = WithTimeout ctx (Duration timeoutSeconds);
                     r' = r\<lparr>Context := ctx'\<rparr>
                 in \<lparr>logged = [], New_ctx = ctx, ServeHTTP_r = r'\<rparr>))
         else \<lparr>logged = [], New_ctx = ctx, ServeHTTP_r = r\<rparr>)"

text \<open>
  A stand-in for \<open>strconv.ParseFloat\<close> on two inputs, for concrete runs: whole seconds
  are enough to tell a parsed header from a malformed one.
\<close>

definition parse_demo :: "string \<Rightarrow> error + int" where
  "parse_demo v =
     (if v = ''10'' then Inr 10
      else Inl (''strconv.ParseFloat: parsing '' @ v @ '': invalid syntax''))"

definition duration_demo :: "int \<Rightarrow> duration" where
  "duration_demo t = t * 1000000000"

definition scrape_request :: "string \<Rightarrow> request" where
  "scrape_request v =
     \<lparr>Header = [''X-Prometheus-Scrape-Timeout-Seconds'' \<mapsto> v], Context = ConnContext\<rparr>"

section \<open>The workspaces scraper: data\<close>

text \<open>
  The records of the upstream client library, with the fields this code reads. A
  \<open>time.Time\<close> is represented by the text its \<open>String()\<close> method returns. Only the
  current run of a workspace is optional; it is the one reference the code tests for
  \<open>nil\<close> before reading it. The organization of a workspace (line 78) and the
  pagination block of a list (line 105) are read without a test and are taken as always
  present in what the upstream returns without an error. A page number is a Go \<open>int\<close>;
  the code does no arithmetic on it, so it is an \<open>int\<close> here.
\<close>

datatype time = Time (Time_String: string)

record run =
  ID :: string
  Status :: string
  CreatedAt :: time

record organization =
  Name :: string

record workspace =
  ID :: string
  Name :: string
  Organization :: organization
  TerraformVersion :: string
  CreatedAt :: time
  Environment :: string
  CurrentRun :: "run option"

record pagination =
  NextPage :: int

record workspace_list =
  Pagination :: pagination
  Items :: "workspace list"

record list_options =
  PageSize :: int
  PageNumber :: int

record workspace_list_options =
  ListOptions :: list_options
  Include :: "string list"

text \<open>
  Inside the collector a context matters only through \<open>ctx.Err()\<close>: \<open>None\<close> while the
  context is live, the cancellation error once \<open>ctx.Done()\<close> is closed (the text of
  \<open>context.Canceled\<close>, or that of the deadline error when a deadline of a parent
  context has passed).
\<close>

type_synonym ctx = "error option"

definition Canceled :: error where
  "Canceled = ''context canceled''"

text \<open>
  \<open>config.Client.Workspaces.List(ctx, organization, options)\<close> is the upstream API: any
  function of its three arguments, returning the error or the page.
\<close>

record workspaces_api =
  List :: "ctx \<Rightarrow> string \<Rightarrow> workspace_list_options \<Rightarrow> error + workspace_list"

record client =
  Workspaces :: workspaces_api

record config =
  Organizations :: "string list"
  Client :: client

text \<open>
  The metric side: a descriptor and a constant metric, as the Prometheus client builds
  them. \<open>MustNewConstMetric\<close> panics when the number of label values is not the number
  of label names of the descriptor; for the one call of this code both are nine (lemma
  \<open>workspaceMetric_arity\<close>).
\<close>

datatype value_type = CounterValue | GaugeValue | UntypedValue

record desc =
  fqName :: string
  desc_help :: string
  variableLabels :: "string list"

record metric =
  metric_desc :: desc
  valueType :: value_type
  metric_value :: int
  labelValues :: "string list"

definition BuildFQName :: "string \<Rightarrow> string \<Rightarrow> string \<Rightarrow> string" where
  "BuildFQName namespace subsystem name =
     (if name = [] then []
      else if namespace \<noteq> [] \<and> subsystem \<noteq> [] then namespace @ ''_'' @ subsystem @ ''_'' @ name
      else if namespace \<noteq> [] then namespace @ ''_'' @ name
      else if subsystem \<noteq> [] then subsystem @ ''_'' @ name
      else name)"

definition MustNewConstMetric :: "desc \<Rightarrow> value_type \<Rightarrow> int \<Rightarrow> string list \<Rightarrow> metric" where
  "MustNewConstMetric d t v lvs =
     \<lparr>metric_desc = d, valueType = t, metric_value = v, labelValues = lvs\<rparr>"

text \<open>The label of a metric by name: label values are paired with the descriptor's names in order.\<close>

definition label :: "metric \<Rightarrow> string \<Rightarrow> string option" where
  "label m = map_of (zip (variableLabels (metric_desc m)) (labelValues m))"

section \<open>The workspaces scraper: sequential code\<close>

definition workspacesSubsystem :: string where
  "workspacesSubsystem = ''workspaces''"

definition pageSize :: int where
  "pageSize = 40"

text \<open>
  \<open>WorkspacesInfo\<close>, lines 28 to 32. The package constant \<open>namespace\<close> is declared in a
  file of the package that is not at hand; it is a parameter.
\<close>

definition WorkspacesInfo :: "string \<Rightarrow> desc" where
  "WorkspacesInfo namespace =
     \<lparr>fqName = BuildFQName namespace workspacesSubsystem ''info'',
      desc_help = ''Information about existing workspaces'',
      variableLabels = [''id'', ''name'', ''organization'', ''terraform_version'', ''created_at'',
        ''environment'', ''current_run'', ''current_run_status'', ''current_run_created_at'']\<rparr>"

text \<open>\<open>ScrapeWorkspaces.Name\<close>, lines 43 to 45.\<close>

definition ScrapeWorkspaces_Name :: string where
  "ScrapeWorkspaces_Name = workspacesSubsystem"

text \<open>Lines 119 to 141.\<close>

definition getCurrentRunID :: "run option \<Rightarrow> string" where
  "getCurrentRunID r = (case r of None \<Rightarrow> ''na'' | Some r' \<Rightarrow> run.ID r')"

definition getCurrentRunStatus :: "run option \<Rightarrow> string" where
  "getCurrentRunStatus r = (case r of None \<Rightarrow> ''na'' | Some r' \<Rightarrow> Status r')"

definition getCurrentRunCreatedAt :: "run option \<Rightarrow> string" where
  "getCurrentRunCreatedAt r = (case r of None \<Rightarrow> ''na'' | Some r' \<Rightarrow> Time_String (run.CreatedAt r'))"

text \<open>The sample built for one workspace, lines 72 to 85.\<close>

definition workspaceMetric :: "string \<Rightarrow> workspace \<Rightarrow> metric" where
  "workspaceMetric namespace w =
     MustNewConstMetric (WorkspacesInfo namespace) GaugeValue 1
       [workspace.ID w,
        workspace.Name w,
        organization.Name (Organization w),
        TerraformVersion w,
        Time_String (workspace.CreatedAt w),
        Environment w,
        getCurrentRunID (CurrentRun w),
        getCurrentRunStatus (CurrentRun w),
        getCurrentRunCreatedAt (CurrentRun w)]"

text \<open>The verb \<open>%d\<close> of \<open>fmt\<close> on an \<open>int\<close>: decimal digits, with a minus sign below zero.\<close>

fun decimal :: "nat \<Rightarrow> string" where
  "decimal n =
     (if n < 10 then [char_of (48 + n)]
      else decimal (n div 10) @ [char_of (48 + n mod 10)])"

declare decimal.simps [simp del]

definition Sprint_d :: "int \<Rightarrow> string" where
  "Sprint_d i = (if i < 0 then ''-'' @ decimal (nat (- i)) else decimal (nat i))"

text \<open>
  The first half of \<open>getWorkspacesListPage\<close>, lines 58 to 68: the upstream call, and the
  error of line 67 when it fails.
\<close>

definition getWorkspacesListPage_List ::
  "config \<Rightarrow> ctx \<Rightarrow> int \<Rightarrow> string \<Rightarrow> error + workspace_list" where
  "getWorkspacesListPage_List config c page organization =
     (case List (Workspaces (Client config)) c organization
             \<lparr>ListOptions = \<lparr>PageSize = pageSize, PageNumber = page\<rparr>,
              Include = [''current_run'']\<rparr> of
        Inl err \<Rightarrow>
          Inl (err @ '', (organization='' @ organization @ '', page='' @ Sprint_d page @ '')'')
      | Inr workspacesList \<Rightarrow> Inr workspacesList)"

text \<open>
  The \<open>select\<close> of lines 71 to 88 has two cases: the send on \<open>ch\<close> and the receive from
  \<open>ctx.Done()\<close>. The receiver of \<open>ch\<close> is outside this code, so whether the send can
  proceed is an input (\<open>ready\<close>). Go runs the one case that can proceed, picks one at
  random (\<open>coin\<close>) when both can, and blocks (\<open>None\<close>) when neither can.
\<close>

datatype chosen = SendCase | DoneCase error

definition select_send :: "bool \<Rightarrow> ctx \<Rightarrow> bool \<Rightarrow> chosen option" where
  "select_send ready c coin =
     (case c of
        None \<Rightarrow> if ready then Some SendCase else None
      | Some e \<Rightarrow> if ready \<and> coin then Some SendCase else Some (DoneCase e))"

section \<open>The workspaces scraper: concurrent execution\<close>

text \<open>
  \<open>Scrape\<close> (lines 95 to 117) starts one goroutine per organization and waits for them.
  The goroutines run interleaved, so the code is a transition system. Each goroutine is
  at one of its blocking points:
  \<^item> \<open>AtList page\<close>: inside \<open>getWorkspacesListPage(ctx, page, name, config, ch)\<close>, at the
    upstream call of line 59 (line 100 with page 1, line 106 afterwards);
  \<^item> \<open>AtSelect list w ws\<close>: inside the same call for the page \<open>list\<close>, at the \<open>select\<close>
    of line 71 for the record \<open>w\<close>, with the records \<open>ws\<close> still to come;
  \<^item> \<open>Returned err\<close>: the function given to \<open>g.Go\<close> has returned \<open>err\<close>.
\<close>

datatype pc =
    AtList int
  | AtSelect workspace_list workspace "workspace list"
  | Returned "error option"

text \<open>
  The state of one call of \<open>Scrape\<close>: the organizations the \<open>range\<close> loop of line 97 has
  not reached yet, the goroutines started so far with the \<open>name\<close> each one captured, the
  error held by the group, \<open>Err()\<close> of the context made by \<open>errgroup.WithContext\<close>,
  what has been sent on \<open>ch\<close> (with the index of the sending goroutine), the upstream
  calls made (goroutine, context state, organization, options), and the value \<open>Scrape\<close>
  returned once it has.
\<close>

record state =
  pending :: "string list"
  tasks :: "(string \<times> pc) list"
  g_err :: "error option"
  ctx_err :: ctx
  ch :: "(nat \<times> metric) list"
  calls :: "(nat \<times> ctx \<times> string \<times> workspace_list_options) list"
  returned :: "error option option"

definition Scrape_init :: "ctx \<Rightarrow> config \<Rightarrow> state" where
  "Scrape_init c config =
     \<lparr>pending = Organizations config, tasks = [], g_err = None, ctx_err = c,
      ch = [], calls = [], returned = None\<rparr>"

text \<open>Cancelling a context sets its error unless it is set already.\<close>

definition cancel :: "ctx \<Rightarrow> ctx" where
  "cancel c = (case c of None \<Rightarrow> Some Canceled | Some e \<Rightarrow> Some e)"

text \<open>
  What \<open>errgroup.Group.Go\<close> does when the function it runs returns: the first error that
  is not \<open>nil\<close> is kept and cancels the group's context.
\<close>

definition errgroup_done :: "error option \<Rightarrow> state \<Rightarrow> state" where
  "errgroup_done err s =
     (case err of
        None \<Rightarrow> s
      | Some e \<Rightarrow> if g_err s = None then s\<lparr>g_err := Some e, ctx_err := cancel (ctx_err s)\<rparr> else s)"

definition goto :: "nat \<Rightarrow> string \<Rightarrow> pc \<Rightarrow> state \<Rightarrow> state" where
  "goto i name p s =
     (let s' = s\<lparr>tasks := (tasks s)[i := (name, p)]\<rparr>
      in case p of Returned err \<Rightarrow> errgroup_done err s' | _ \<Rightarrow> s')"

text \<open>
  Lines 105 to 112: the loop condition on the page just completed. A next page that is
  not zero is requested; zero ends the loop and the function returns \<open>nil\<close>.
\<close>

definition next_page :: "workspace_list \<Rightarrow> pc" where
  "next_page list =
     (if NextPage (Pagination list) \<noteq> 0 then AtList (NextPage (Pagination list))
      else Returned None)"

text \<open>
  The \<open>range\<close> loop of line 70 over the records left: with none left,
  \<open>getWorkspacesListPage\<close> returns the page and \<open>nil\<close> (line 91) and the caller is at its
  loop condition.
\<close>

definition range_items :: "workspace_list \<Rightarrow> workspace list \<Rightarrow> pc" where
  "range_items list ws = (case ws of [] \<Rightarrow> next_page list | w # ws' \<Rightarrow> AtSelect list w ws')"

text \<open>
  The events: the \<open>range\<close> loop of \<open>Scrape\<close> starts the next goroutine; the upstream call
  of goroutine \<open>i\<close> returns; the \<open>select\<close> of goroutine \<open>i\<close> is resolved (with the
  readiness of the channel and the coin); the context given to \<open>Scrape\<close> is cancelled
  from outside; \<open>g.Wait()\<close> returns. An event that cannot happen in a state gives
  \<open>None\<close>.

  One step runs a goroutine from one blocking point to the next. An upstream call
  answers to the state the context has when the call returns. The return of a goroutine
  and the bookkeeping of the group for it are one step, so the first error is the error
  of the goroutine whose return the group handles first. \<open>g.Wait()\<close> returns only when
  the \<open>range\<close> loop is over and every goroutine has returned; like the library, it
  cancels the context before it returns the group's error.
\<close>

datatype event =
    Go
  | ListReturns nat
  | Select nat bool bool
  | ParentDone error
  | WaitReturns

definition all_returned :: "state \<Rightarrow> bool" where
  "all_returned s = list_all (\<lambda>t. case snd t of Returned err \<Rightarrow> True | _ \<Rightarrow> False) (tasks s)"

fun step :: "string \<Rightarrow> config \<Rightarrow> state \<Rightarrow> event \<Rightarrow> state option" where
  "step namespace config s Go =
     (case pending s of
        [] \<Rightarrow> None
      | name # rest \<Rightarrow> Some (s\<lparr>pending := rest, tasks := tasks s @ [(name, AtList 1)]\<rparr>))"
| "step namespace config s (ListReturns i) =
     (if i < length (tasks s) then
        (case tasks s ! i of
           (name, AtList page) \<Rightarrow>
             (let s' = s\<lparr>calls := calls s @
                         [(i, ctx_err s, name,
                           \<lparr>ListOptions = \<lparr>PageSize = pageSize, PageNumber = page\<rparr>,
                            Include = [''current_run'']\<rparr>)]\<rparr>
              in case getWorkspacesListPage_List config (ctx_err s) page name of
                   Inl err \<Rightarrow> Some (goto i name (Returned (Some err)) s')
                 | Inr list \<Rightarrow> Some (goto i name (range_items list (Items list)) s'))
         | _ \<Rightarrow> None)
      else None)"
| "step namespace config s (Select i ready coin) =
     (if i < length (tasks s) then
        (case tasks s ! i of
           (name, AtSelect list w ws) \<Rightarrow>
             (case select_send ready (ctx_err s) coin of
                None \<Rightarrow> None
              | Some SendCase \<Rightarrow>
                  Some (goto i name (range_items list ws)
                          (s\<lparr>ch := ch s @ [(i, workspaceMetric namespace w)]\<rparr>))
              | Some (DoneCase e) \<Rightarrow> Some (goto i name (Returned (Some e)) s))
         | _ \<Rightarrow> None)
      else None)"
| "step namespace config s (ParentDone e) =
     (if ctx_err s = None \<and> returned s = None then Some (s\<lparr>ctx_err := Some e\<rparr>) else None)"
| "step namespace config s WaitReturns =
     (if pending s = [] \<and> all_returned s \<and> returned s = None
      then Some (s\<lparr>ctx_err := cancel (ctx_err s), returned := Some (g_err s)\<rparr>)
      else None)"

fun steps :: "string \<Rightarrow> config \<Rightarrow> state \<Rightarrow> event list \<Rightarrow> state option" where
  "steps namespace config s [] = Some s"
| "steps namespace config s (ev # evs) =
     (case step namespace config s ev of
        None \<Rightarrow> None
      | Some s' \<Rightarrow> steps namespace config s' evs)"

text \<open>\<open>Scrape\<close> under a schedule: the state reached from the initial one, if the schedule can run.\<close>

definition Scrape :: "string \<Rightarrow> ctx \<Rightarrow> config \<Rightarrow> event list \<Rightarrow> state option" where
  "Scrape namespace c config evs = steps namespace config (Scrape_init c config) evs"

text \<open>What goroutine \<open>i\<close> has sent, and the pages it has requested, in order.\<close>

definition samples_of :: "nat \<Rightarrow> state \<Rightarrow> metric list" where
  "samples_of i s = map snd (filter (\<lambda>x. fst x = i) (ch s))"

definition calls_of :: "nat \<Rightarrow> state \<Rightarrow> (ctx \<times> string \<times> workspace_list_options) list" where
  "calls_of i s = map snd (filter (\<lambda>x. fst x = i) (calls s))"

definition pages_of :: "nat \<Rightarrow> state \<Rightarrow> int list" where
  "pages_of i s = map (\<lambda>x. PageNumber (ListOptions (snd (snd x)))) (calls_of i s)"

text \<open>
  An upstream call as it is logged in the state, the options of the call for one page
  (lines 60 to 64), the page a logged call asked for, and what the upstream answers to
  a logged call.
\<close>

type_synonym "call" = "ctx \<times> string \<times> workspace_list_options"

definition request_options :: "int \<Rightarrow> workspace_list_options" where
  "request_options page =
     \<lparr>ListOptions = \<lparr>PageSize = pageSize, PageNumber = page\<rparr>, Include = [''current_run'']\<rparr>"

definition page_of :: "call \<Rightarrow> int" where
  "page_of x = PageNumber (ListOptions (snd (snd x)))"

definition response :: "config \<Rightarrow> call \<Rightarrow> error + workspace_list" where
  "response config x = List (Workspaces (Client config)) (fst x) (fst (snd x)) (snd (snd x))"

text \<open>
  Where a goroutine is once its upstream call for \<open>page\<close> has returned under the context
  state \<open>c\<close>: it has returned the error of line 67, or it is in the \<open>range\<close> loop over
  the records of the page.
\<close>

definition after_List :: "config \<Rightarrow> ctx \<Rightarrow> int \<Rightarrow> string \<Rightarrow> pc" where
  "after_List config c page name =
     (case getWorkspacesListPage_List config c page name of
        Inl err \<Rightarrow> Returned (Some err)
      | Inr list \<Rightarrow> range_items list (Items list))"

section \<open>One goroutine on its own\<close>

text \<open>
  The function started by \<open>g.Go\<close> (lines 99 to 113), seen alone: the program point it
  is at, the upstream calls it has made and the samples it has sent. It starts at the
  call for page 1; an upstream call returns under any state of the context; a \<open>select\<close>
  either sends the sample or returns the error of the context. This is what one
  goroutine can do whatever the others and the scheduler do; the lemma
  \<open>goroutine_Scrape\<close> below proves that every goroutine of every run of \<open>step\<close>
  is in this relation.
\<close>

inductive goroutine :: "string \<Rightarrow> config \<Rightarrow> string \<Rightarrow> pc \<Rightarrow> call list \<Rightarrow> metric list \<Rightarrow> bool"
  for ns config name where
    g_start: "goroutine ns config name (AtList 1) [] []"
  | g_list: "goroutine ns config name (AtList page) cs ms \<Longrightarrow>
           goroutine ns config name (after_List config c page name)
             (cs @ [(c, name, request_options page)]) ms"
  | g_send: "goroutine ns config name (AtSelect l w ws) cs ms \<Longrightarrow>
           goroutine ns config name (range_items l ws) cs (ms @ [workspaceMetric ns w])"
  | g_done: "goroutine ns config name (AtSelect l w ws) cs ms \<Longrightarrow>
           goroutine ns config name (Returned (Some e)) cs ms"

section \<open>Invariants\<close>

text \<open>
  The group and its goroutines: the captured names and the organizations still to
  start are the configured list; the group holds an error exactly when some goroutine
  has returned one; the context is cancelled once the group holds an error; and once
  \<open>Scrape\<close> has returned, it has returned the group's error, every goroutine was
  started and has returned, and the context is cancelled.
\<close>

definition errgroup_inv :: "config \<Rightarrow> state \<Rightarrow> bool" where
  "errgroup_inv config s \<longleftrightarrow>
     map fst (tasks s) @ pending s = Organizations config \<and>
     (g_err s = None \<longleftrightarrow> (\<forall>j<length (tasks s). \<forall>e. snd (tasks s ! j) \<noteq> Returned (Some e))) \<and>
     (g_err s \<noteq> None \<longrightarrow> ctx_err s \<noteq> None) \<and>
     (\<forall>r. returned s = Some r \<longrightarrow>
        r = g_err s \<and> pending s = [] \<and> all_returned s \<and> ctx_err s \<noteq> None)"

text \<open>
  Every entry of the two logs belongs to a started goroutine, and every started goroutine
  with its part of the logs is in the relation \<open>goroutine\<close>.
\<close>

definition local_inv :: "string \<Rightarrow> config \<Rightarrow> state \<Rightarrow> bool" where
  "local_inv ns config s \<longleftrightarrow>
     (\<forall>x\<in>set (ch s). fst x < length (tasks s)) \<and>
     (\<forall>x\<in>set (calls s). fst x < length (tasks s)) \<and>
     (\<forall>i<length (tasks s).
        goroutine ns config (fst (tasks s ! i)) (snd (tasks s ! i)) (calls_of i s) (samples_of i s))"

text \<open>
  The requests of one goroutine form a chain: every call is for the captured
  organization with the fixed options; the first asks for page 1; each later one asks
  for the next page of the answer to the one before, which was not zero; and the program
  point fits the answer to the last call.
\<close>

definition chain_inv :: "config \<Rightarrow> string \<Rightarrow> pc \<Rightarrow> call list \<Rightarrow> bool" where
  "chain_inv config name p cs \<longleftrightarrow>
     (\<forall>x\<in>set cs. \<exists>c page. x = (c, name, request_options page)) \<and>
     (cs = [] \<longrightarrow> p = AtList 1) \<and>
     (cs \<noteq> [] \<longrightarrow> page_of (hd cs) = 1) \<and>
     (\<forall>k. Suc k < length cs \<longrightarrow>
        (\<exists>l. response config (cs ! k) = Inr l \<and> NextPage (Pagination l) \<noteq> 0 \<and>
             page_of (cs ! Suc k) = NextPage (Pagination l))) \<and>
     (\<forall>page. p = AtList page \<and> cs \<noteq> [] \<longrightarrow>
        (\<exists>l. response config (last cs) = Inr l \<and> NextPage (Pagination l) = page \<and> page \<noteq> 0)) \<and>
     (\<forall>l w ws. p = AtSelect l w ws \<longrightarrow> cs \<noteq> [] \<and> response config (last cs) = Inr l) \<and>
     (p = Returned None \<longrightarrow>
        cs \<noteq> [] \<and> (\<exists>l. response config (last cs) = Inr l \<and> NextPage (Pagination l) = 0))"

text \<open>
  An upstream that advances for an organization: every page it returns names as next
  page either zero or a page after the one asked for, and at most \<open>n\<close>. Against such an
  upstream the pages requested so far are strictly increasing and lie between 1 and
  \<open>n\<close>, and the page requested next is above them all.
\<close>

definition advancing :: "config \<Rightarrow> string \<Rightarrow> int \<Rightarrow> bool" where
  "advancing config name n \<longleftrightarrow>
     (\<forall>c page l. response config (c, name, request_options page) = Inr l \<longrightarrow>
        NextPage (Pagination l) = 0 \<or>
        (page < NextPage (Pagination l) \<and> NextPage (Pagination l) \<le> n))"

definition adv_inv :: "int \<Rightarrow> pc \<Rightarrow> call list \<Rightarrow> bool" where
  "adv_inv n p cs \<longleftrightarrow>
     sorted_wrt (<) (map page_of cs) \<and>
     (\<forall>q\<in>set (map page_of cs). 1 \<le> q \<and> q \<le> max 1 n) \<and>
     (\<forall>page. p = AtList page \<longrightarrow>
        1 \<le> page \<and> page \<le> max 1 n \<and> (\<forall>q\<in>set (map page_of cs). q < page)) \<and>
     (\<forall>l w ws. p = AtSelect l w ws \<longrightarrow>
        NextPage (Pagination l) = 0 \<or>
        (1 \<le> NextPage (Pagination l) \<and> NextPage (Pagination l) \<le> n \<and>
         (\<forall>q\<in>set (map page_of cs). q < NextPage (Pagination l))))"

text \<open>
  An upstream that serves the pages \<open>pages\<close> for an organization: while the context is
  live, the request for page \<open>k + 1\<close> returns the \<open>k\<close>-th list of records, and names page
  \<open>k + 2\<close> as next page, or zero after the last list. \<open>page_numbers k\<close> are the first
  \<open>k\<close> page numbers. The invariant: as long as every call of the goroutine was made
  under a live context, what it has sent is the samples of the pages completed so far,
  followed by those of the current page up to the current record.
\<close>

definition page_response :: "workspace list list \<Rightarrow> nat \<Rightarrow> workspace_list" where
  "page_response pages k =
     \<lparr>Pagination = \<lparr>NextPage = (if Suc k < length pages then int k + 2 else 0)\<rparr>,
      Items = pages ! k\<rparr>"

definition serves :: "config \<Rightarrow> string \<Rightarrow> workspace list list \<Rightarrow> bool" where
  "serves config name pages \<longleftrightarrow>
     pages \<noteq> [] \<and>
     (\<forall>k<length pages.
        response config (None, name, request_options (int k + 1)) = Inr (page_response pages k))"

definition page_numbers :: "nat \<Rightarrow> int list" where
  "page_numbers k = map (\<lambda>j. int j + 1) [0..<k]"

definition fetch_inv :: "string \<Rightarrow> workspace list list \<Rightarrow> pc \<Rightarrow> call list \<Rightarrow> metric list \<Rightarrow> bool" where
  "fetch_inv ns pages p cs ms \<longleftrightarrow>
     ((\<forall>x\<in>set cs. fst x = None) \<longrightarrow>
        (\<forall>page. p = AtList page \<longrightarrow>
           (\<exists>k<length pages. page = int k + 1 \<and>
              ms = map (workspaceMetric ns) (concat (take k pages)) \<and>
              map page_of cs = page_numbers k)) \<and>
        (\<forall>l w ws. p = AtSelect l w ws \<longrightarrow>
           (\<exists>k<length pages.
              NextPage (Pagination l) = NextPage (Pagination (page_response pages k)) \<and>
              ms @ map (workspaceMetric ns) (w # ws) =
                map (workspaceMetric ns) (concat (take (Suc k) pages)) \<and>
              map page_of cs = page_numbers (Suc k))) \<and>
        (p = Returned None \<longrightarrow>
           ms = map (workspaceMetric ns) (concat pages) \<and>
           map page_of cs = page_numbers (length pages)))"

section \<open>Concrete inputs\<close>

text \<open>
  Two workspaces, one without a current run and one with, and an upstream with three
  kinds of organization: \<open>acme\<close> has two pages of one workspace each, \<open>loop\<close> answers
  every request with an empty page whose next page is 1, and any other organization
  fails with \<open>boom\<close>.
\<close>

definition w1 :: workspace where
  "w1 = \<lparr>workspace.ID = ''ws-1'', Name = ''app'', Organization = \<lparr>organization.Name = ''acme''\<rparr>,
     TerraformVersion = ''1.0.0'', CreatedAt = Time ''2021-01-01 00:00:00 +0000 UTC'',
     Environment = ''default'', CurrentRun = None\<rparr>"

definition w2 :: workspace where
  "w2 = \<lparr>workspace.ID = ''ws-2'', Name = ''db'', Organization = \<lparr>organization.Name = ''acme''\<rparr>,
     TerraformVersion = ''1.0.0'', CreatedAt = Time ''2021-01-02 00:00:00 +0000 UTC'',
     Environment = ''default'', CurrentRun = Some \<lparr>run.ID = ''run-9'', Status = ''applied'', CreatedAt = Time ''2021-02-01 00:00:00 +0000 UTC''\<rparr>\<rparr>"

definition acme_page1 :: workspace_list where
  "acme_page1 = \<lparr>Pagination = \<lparr>NextPage = 2\<rparr>, Items = [w1]\<rparr>"

definition acme_page2 :: workspace_list where
  "acme_page2 = \<lparr>Pagination = \<lparr>NextPage = 0\<rparr>, Items = [w2]\<rparr>"

definition demo_List :: "ctx \<Rightarrow> string \<Rightarrow> workspace_list_options \<Rightarrow> error + workspace_list" where
  "demo_List c organization opts =
    (if organization = ''acme'' then
       (if PageNumber (ListOptions opts) = 1 then Inr \<lparr>Pagination = \<lparr>NextPage = 2\<rparr>, Items = [w1]\<rparr>
        else if PageNumber (ListOptions opts) = 2 then Inr \<lparr>Pagination = \<lparr>NextPage = 0\<rparr>, Items = [w2]\<rparr>
        else Inl ''not found'')
     else if organization = ''loop'' then Inr \<lparr>Pagination = \<lparr>NextPage = 1\<rparr>, Items = []\<rparr>
     else Inl ''boom'')"

definition demo_config :: "string list \<Rightarrow> config" where
  "demo_config orgs = \<lparr>Organizations = orgs, Client = \<lparr>Workspaces = \<lparr>List = demo_List\<rparr>\<rparr>\<rparr>"

definition demo_options :: "int \<Rightarrow> workspace_list_options" where
  "demo_options page =
     \<lparr>ListOptions = \<lparr>PageSize = 40, PageNumber = page\<rparr>, Include = [''current_run'']\<rparr>"

text \<open>
  States of runs against this upstream: \<open>acme\<close> at the \<open>select\<close> for its first and for
  its second workspace, and \<open>down\<close> and \<open>loop\<close> at their first upstream call. Three
  schedules: in \<open>demo_schedule\<close> the organization \<open>down\<close> fails while \<open>acme\<close> is between
  its pages, in \<open>sibling_schedule\<close> while \<open>acme\<close> is at the \<open>select\<close> for its first
  workspace; \<open>acme_schedule\<close> runs \<open>acme\<close> alone to its end.
\<close>

definition acme_at_w1 :: "ctx \<Rightarrow> state" where
  "acme_at_w1 c =
     \<lparr>pending = [], tasks = [(''acme'', AtSelect acme_page1 w1 [])], g_err = None, ctx_err = c,
      ch = [], calls = [(0, None, ''acme'', demo_options 1)], returned = None\<rparr>"

definition acme_at_w2 :: state where
  "acme_at_w2 =
     \<lparr>pending = [], tasks = [(''acme'', AtSelect acme_page2 w2 [])], g_err = None, ctx_err = None,
      ch = [(0, workspaceMetric ''tf'' w1)],
      calls = [(0, None, ''acme'', demo_options 1), (0, None, ''acme'', demo_options 2)],
      returned = None\<rparr>"

definition down_at_list :: state where
  "down_at_list =
     \<lparr>pending = [], tasks = [(''down'', AtList 1)], g_err = None, ctx_err = None,
      ch = [], calls = [], returned = None\<rparr>"

definition loop_at_list :: state where
  "loop_at_list =
     \<lparr>pending = [], tasks = [(''loop'', AtList 1)], g_err = None, ctx_err = None,
      ch = [], calls = [], returned = None\<rparr>"

definition demo_schedule :: "event list" where
  "demo_schedule = [Go, Go, ListReturns 0, Select 0 True False, ListReturns 1, ListReturns 0,
     Select 0 False False, WaitReturns]"

definition sibling_schedule :: "event list" where
  "sibling_schedule = [Go, Go, ListReturns 0, ListReturns 1]"

definition acme_schedule :: "event list" where
  "acme_schedule = [Go, ListReturns 0, Select 0 True False, ListReturns 0, Select 0 True False]"

section \<open>Properties of the exposition handler\<close>

text \<open>
  Whatever the header, the context handed to \<open>collector.New\<close> is the request's own; when
  the header parses, the context with the deadline goes into the served request only.
\<close>

lemma newHandler_New_ctx: "New_ctx (newHandler ParseFloat Duration r) = Context r"
  by (simp add: newHandler_def Let_def split: sum.split)

lemma newHandler_parsed:
  "Header_Get (Header r) ''X-Prometheus-Scrape-Timeout-Seconds'' = v \<Longrightarrow> v \<noteq> [] \<Longrightarrow>
   ParseFloat v = Inr t \<Longrightarrow>
   newHandler ParseFloat Duration r =
     \<lparr>logged = [], New_ctx = Context r,
      ServeHTTP_r = r\<lparr>Context := WithTimeout (Context r) (Duration t)\<rparr>\<rparr>"
  by (simp add: newHandler_def Let_def)

text \<open>
  C1. A scrape request with the header \<open>X-Prometheus-Scrape-Timeout-Seconds: 10\<close>
  on a connection-scoped context: the header parses, the request handed to
  \<open>ServeHTTP\<close> carries the context with the ten-second deadline, and the context handed
  to \<open>collector.New\<close> is still the request's own context, which has no deadline.
\<close>

theorem newHandler_collector_ctx_unbounded:
  "newHandler parse_demo duration_demo (scrape_request ''10'') =
     \<lparr>logged = [],
      New_ctx = ConnContext,
      ServeHTTP_r = (scrape_request ''10'')\<lparr>Context := WithTimeout ConnContext 10000000000\<rparr>\<rparr>
   \<and> \<not> bounded (New_ctx (newHandler parse_demo duration_demo (scrape_request ''10'')))"
  by (simp add: newHandler_def Header_Get_def scrape_request_def parse_demo_def
      duration_demo_def)

text \<open>
  C9. When the timeout header is present and \<open>ParseFloat\<close> rejects it, the handler
  writes one error line to the logger and nothing else changes: the collector is built
  on the request's own context and the request is served as it came, so no deadline is
  applied anywhere.
\<close>

theorem newHandler_malformed_timeout:
  assumes "Header_Get (Header r) ''X-Prometheus-Scrape-Timeout-Seconds'' = v"
      and "v \<noteq> []"
      and "ParseFloat v = Inl err"
  shows "newHandler ParseFloat Duration r =
           \<lparr>logged = [[(''level'', ''error''),
                        (''msg'', ''Failed to parse timeout from Prometheus header''),
                        (''err'', err)]],
            New_ctx = Context r,
            ServeHTTP_r = r\<rparr>"
  using assms by (simp add: newHandler_def Let_def)

theorem newHandler_malformed_timeout_witness:
  "newHandler parse_demo duration_demo (scrape_request ''abc'') =
     \<lparr>logged = [[(''level'', ''error''),
                  (''msg'', ''Failed to parse timeout from Prometheus header''),
                  (''err'', ''strconv.ParseFloat: parsing abc: invalid syntax'')]],
      New_ctx = ConnContext,
      ServeHTTP_r = scrape_request ''abc''\<rparr>"
proof -
  have v: "Header_Get (Header (scrape_request ''abc''))
             ''X-Prometheus-Scrape-Timeout-Seconds'' = ''abc''"
    by (simp add: Header_Get_def scrape_request_def)
  have p: "parse_demo ''abc'' = Inl ''strconv.ParseFloat: parsing abc: invalid syntax''"
    by (simp add: parse_demo_def)
  have n: "''abc'' \<noteq> []"
    by simp
  have c: "Context (scrape_request ''abc'') = ConnContext"
    by (simp add: scrape_request_def)
  show ?thesis
    using newHandler_malformed_timeout
      [where r = "scrape_request ''abc''" and ParseFloat = parse_demo
         and Duration = duration_demo, OF v n p] c
    by simp
qed

section \<open>Steps of the workspaces scraper\<close>

text \<open>
  What \<open>goto\<close> changes, and the three kinds of step of a goroutine in closed form.
\<close>

lemma ch_goto [simp]: "ch (goto i name p s) = ch s"
  by (simp add: goto_def errgroup_done_def Let_def split: pc.split option.split)

lemma calls_goto [simp]: "calls (goto i name p s) = calls s"
  by (simp add: goto_def errgroup_done_def Let_def split: pc.split option.split)

lemma pending_goto [simp]: "pending (goto i name p s) = pending s"
  by (simp add: goto_def errgroup_done_def Let_def split: pc.split option.split)

lemma returned_goto [simp]: "returned (goto i name p s) = returned s"
  by (simp add: goto_def errgroup_done_def Let_def split: pc.split option.split)

lemma tasks_goto [simp]: "tasks (goto i name p s) = (tasks s)[i := (name, p)]"
  by (simp add: goto_def errgroup_done_def Let_def split: pc.split option.split)

lemma g_err_goto:
  "g_err (goto i name p s) =
     (case p of Returned (Some e) \<Rightarrow> (if g_err s = None then Some e else g_err s) | _ \<Rightarrow> g_err s)"
  by (auto simp add: goto_def errgroup_done_def Let_def split: pc.split option.split)

lemma ctx_err_goto:
  "ctx_err (goto i name p s) =
     (case p of Returned (Some e) \<Rightarrow> (if g_err s = None then cancel (ctx_err s) else ctx_err s)
      | _ \<Rightarrow> ctx_err s)"
  by (auto simp add: goto_def errgroup_done_def Let_def split: pc.split option.split)

lemma samples_of_goto [simp]: "samples_of j (goto i name p s) = samples_of j s"
  by (simp add: samples_of_def)

lemma calls_of_goto [simp]: "calls_of j (goto i name p s) = calls_of j s"
  by (simp add: calls_of_def)

lemma samples_of_simps [simp]:
  "samples_of j (s\<lparr>calls := cs\<rparr>) = samples_of j s"
  "samples_of j (s\<lparr>ctx_err := c\<rparr>) = samples_of j s"
  "samples_of j (s\<lparr>returned := r\<rparr>) = samples_of j s"
  "samples_of j (s\<lparr>pending := p\<rparr>) = samples_of j s"
  "samples_of j (s\<lparr>tasks := ts\<rparr>) = samples_of j s"
  "samples_of j (s\<lparr>ch := ch s @ [(i, m)]\<rparr>) = samples_of j s @ (if i = j then [m] else [])"
  by (simp_all add: samples_of_def)

lemma calls_of_simps [simp]:
  "calls_of j (s\<lparr>ch := x\<rparr>) = calls_of j s"
  "calls_of j (s\<lparr>ctx_err := c\<rparr>) = calls_of j s"
  "calls_of j (s\<lparr>returned := r\<rparr>) = calls_of j s"
  "calls_of j (s\<lparr>pending := p\<rparr>) = calls_of j s"
  "calls_of j (s\<lparr>tasks := ts\<rparr>) = calls_of j s"
  "calls_of j (s\<lparr>calls := calls s @ [(i, y)]\<rparr>) = calls_of j s @ (if i = j then [y] else [])"
  by (simp_all add: calls_of_def)

lemma goto_quiet:
  assumes "\<forall>e. p \<noteq> Returned (Some e)"
  shows "ctx_err (goto i name p s) = ctx_err s" and "g_err (goto i name p s) = g_err s"
  using assms by (auto simp: ctx_err_goto g_err_goto split: pc.splits option.splits)

lemma next_page_quiet: "next_page l \<noteq> Returned (Some e)"
  by (simp add: next_page_def)

lemma step_Select_send:
  assumes "i < length (tasks s)" "tasks s ! i = (name, AtSelect list w ws)"
    "select_send ready (ctx_err s) coin = Some SendCase"
  shows "step ns config s (Select i ready coin) =
     Some (goto i name (range_items list ws) (s\<lparr>ch := ch s @ [(i, workspaceMetric ns w)]\<rparr>))"
  using assms by simp

lemma step_ListReturns:
  assumes "i < length (tasks s)" "tasks s ! i = (name, AtList page)"
  shows "step ns config s (ListReturns i) =
     Some (goto i name
            (case getWorkspacesListPage_List config (ctx_err s) page name of
               Inl err \<Rightarrow> Returned (Some err)
             | Inr list \<Rightarrow> range_items list (Items list))
            (s\<lparr>calls := calls s @
                 [(i, ctx_err s, name,
                   \<lparr>ListOptions = \<lparr>PageSize = pageSize, PageNumber = page\<rparr>,
                    Include = [''current_run'']\<rparr>)]\<rparr>))"
  using assms by (simp add: Let_def split: sum.split)

lemma step_Select_done:
  assumes "i < length (tasks s)" "tasks s ! i = (name, AtSelect list w ws)"
    "select_send ready (ctx_err s) coin = Some (DoneCase e)"
  shows "step ns config s (Select i ready coin) = Some (goto i name (Returned (Some e)) s)"
  using assms by simp

text \<open>
  A schedule made of two parts runs the first part and then the second; a property that
  holds at the start and is kept by every step holds after every schedule.
\<close>

lemma steps_append:
  "steps ns config s (xs @ ys) =
     (case steps ns config s xs of None \<Rightarrow> None | Some s' \<Rightarrow> steps ns config s' ys)"
  by (induction xs arbitrary: s) (auto split: option.split)

lemma steps_invariant:
  assumes "steps ns config s evs = Some s'"
      and "P s"
      and "\<And>t ev t'. P t \<Longrightarrow> step ns config t ev = Some t' \<Longrightarrow> P t'"
  shows "P s'"
  using assms(1,2)
proof (induction evs arbitrary: s)
  case Nil
  then show ?case by simp
next
  case (Cons ev evs)
  then show ?case by (auto split: option.splits intro: assms(3))
qed

text \<open>
  Case analysis on a step that can happen: the six ways a state changes.
\<close>

lemma step_cases:
  assumes "step ns config s ev = Some s'"
  obtains
    (Go) name rest where "ev = Go" "pending s = name # rest"
      "s' = s\<lparr>pending := rest, tasks := tasks s @ [(name, AtList 1)]\<rparr>"
  | (List) i name page where "ev = ListReturns i" "i < length (tasks s)"
      "tasks s ! i = (name, AtList page)"
      "s' = goto i name
            (case getWorkspacesListPage_List config (ctx_err s) page name of
               Inl err \<Rightarrow> Returned (Some err)
             | Inr list \<Rightarrow> range_items list (Items list))
            (s\<lparr>calls := calls s @
                 [(i, ctx_err s, name,
                   \<lparr>ListOptions = \<lparr>PageSize = pageSize, PageNumber = page\<rparr>,
                    Include = [''current_run'']\<rparr>)]\<rparr>)"
  | (Send) i ready coin name list w ws where "ev = Select i ready coin" "i < length (tasks s)"
      "tasks s ! i = (name, AtSelect list w ws)"
      "select_send ready (ctx_err s) coin = Some SendCase"
      "s' = goto i name (range_items list ws) (s\<lparr>ch := ch s @ [(i, workspaceMetric ns w)]\<rparr>)"
  | (Done) i ready coin name list w ws e where "ev = Select i ready coin" "i < length (tasks s)"
      "tasks s ! i = (name, AtSelect list w ws)"
      "select_send ready (ctx_err s) coin = Some (DoneCase e)" "ctx_err s = Some e"
      "s' = goto i name (Returned (Some e)) s"
  | (Parent) e where "ev = ParentDone e" "ctx_err s = None" "returned s = None"
      "s' = s\<lparr>ctx_err := Some e\<rparr>"
  | (Wait) "ev = WaitReturns" "pending s = []" "all_returned s" "returned s = None"
      "s' = s\<lparr>ctx_err := cancel (ctx_err s), returned := Some (g_err s)\<rparr>"
proof (cases ev)
  case Go
  with assms show ?thesis by (cases "pending s") (auto intro: that(1))
next
  case (ListReturns i)
  with assms have i: "i < length (tasks s)" by (simp split: if_splits)
  obtain name p where t: "tasks s ! i = (name, p)" by (cases "tasks s ! i")
  from assms ListReturns i t obtain page where p: "p = AtList page"
    by (cases p) simp_all
  note t' = t [unfolded p]
  have "step ns config s ev = Some (goto i name
            (case getWorkspacesListPage_List config (ctx_err s) page name of
               Inl err \<Rightarrow> Returned (Some err)
             | Inr list \<Rightarrow> range_items list (Items list))
            (s\<lparr>calls := calls s @
                 [(i, ctx_err s, name,
                   \<lparr>ListOptions = \<lparr>PageSize = pageSize, PageNumber = page\<rparr>,
                    Include = [''current_run'']\<rparr>)]\<rparr>))"
    unfolding ListReturns by (rule step_ListReturns [OF i t'])
  with assms show ?thesis
    using that(2) [OF ListReturns i t'] by (simp del: step.simps)
next
  case (Select i ready coin)
  with assms have i: "i < length (tasks s)" by (simp split: if_splits)
  obtain name p where t: "tasks s ! i = (name, p)" by (cases "tasks s ! i")
  from assms Select i t obtain list w ws where p: "p = AtSelect list w ws"
    by (cases p) simp_all
  note t' = t [unfolded p]
  show ?thesis
  proof (cases "select_send ready (ctx_err s) coin")
    case None
    with assms Select i t' show ?thesis by simp
  next
    case (Some c)
    show ?thesis
    proof (cases c)
      case SendCase
      with Some have c: "select_send ready (ctx_err s) coin = Some SendCase" by simp
      have "step ns config s ev =
          Some (goto i name (range_items list ws) (s\<lparr>ch := ch s @ [(i, workspaceMetric ns w)]\<rparr>))"
        unfolding Select by (rule step_Select_send [OF i t' c])
      with assms show ?thesis
        using that(3) [OF Select i t' c] by (simp del: step.simps)
    next
      case (DoneCase e)
      with Some have c: "select_send ready (ctx_err s) coin = Some (DoneCase e)" by simp
      then have e: "ctx_err s = Some e"
        by (auto simp: select_send_def split: option.splits if_splits)
      have "step ns config s ev = Some (goto i name (Returned (Some e)) s)"
        unfolding Select by (rule step_Select_done [OF i t' c])
      with assms show ?thesis
        using that(4) [OF Select i t' c e] by (simp del: step.simps)
    qed
  qed
next
  case (ParentDone e)
  with assms show ?thesis by (auto split: if_splits intro: that(5))
next
  case WaitReturns
  with assms show ?thesis by (auto split: if_splits intro: that(6))
qed

declare step.simps [simp del]

text \<open>
  The concrete states are reached by runs of \<open>Scrape\<close>.
\<close>

lemma acme_at_w1_reached:
  "Scrape ''tf'' None (demo_config [''acme'']) [Go, ListReturns 0] = Some (acme_at_w1 None)"
  by (simp add: Scrape_def Scrape_init_def demo_config_def step.simps acme_at_w1_def
      getWorkspacesListPage_List_def demo_List_def goto_def range_items_def pageSize_def
      demo_options_def acme_page1_def)

lemma acme_at_w1_cancelled_reached:
  "Scrape ''tf'' None (demo_config [''acme'']) [Go, ListReturns 0, ParentDone Canceled]
     = Some (acme_at_w1 (Some Canceled))"
  by (simp add: Scrape_def Scrape_init_def demo_config_def step.simps acme_at_w1_def
      getWorkspacesListPage_List_def demo_List_def goto_def range_items_def pageSize_def
      demo_options_def acme_page1_def)

lemma acme_at_w2_reached:
  "Scrape ''tf'' None (demo_config [''acme''])
     [Go, ListReturns 0, Select 0 True False, ListReturns 0] = Some acme_at_w2"
  by (simp add: Scrape_def Scrape_init_def demo_config_def step.simps acme_at_w2_def
      getWorkspacesListPage_List_def demo_List_def goto_def range_items_def pageSize_def
      demo_options_def acme_page1_def acme_page2_def select_send_def next_page_def)

lemma down_at_list_reached:
  "Scrape ''tf'' None (demo_config [''down'']) [Go] = Some down_at_list"
  by (simp add: Scrape_def Scrape_init_def demo_config_def step.simps down_at_list_def)

lemma loop_at_list_reached:
  "Scrape ''tf'' None (demo_config [''loop'']) [Go] = Some loop_at_list"
  by (simp add: Scrape_def Scrape_init_def demo_config_def step.simps loop_at_list_def)

section \<open>The emitted sample\<close>

lemma workspaceMetric_arity:
  "length (labelValues (workspaceMetric ns w)) =
     length (variableLabels (metric_desc (workspaceMetric ns w)))"
  by (simp add: workspaceMetric_def MustNewConstMetric_def WorkspacesInfo_def)

lemma workspaceMetric_labels:
  "label (workspaceMetric ns w) ''current_run'' = Some (getCurrentRunID (CurrentRun w))"
  "label (workspaceMetric ns w) ''current_run_status'' = Some (getCurrentRunStatus (CurrentRun w))"
  "label (workspaceMetric ns w) ''current_run_created_at'' = Some (getCurrentRunCreatedAt (CurrentRun w))"
  by (simp_all add: label_def workspaceMetric_def MustNewConstMetric_def WorkspacesInfo_def)

text \<open>
  C4. When the \<open>select\<close> of a goroutine sends the sample of a workspace \<open>w\<close>, that
  sample is appended to what was sent on the channel, and its three labels
  \<open>current_run\<close>, \<open>current_run_status\<close> and \<open>current_run_created_at\<close> are all
  \<open>na\<close> if \<open>w\<close> has no current run, and the id, the status and the creation time of the
  run if it has one.
\<close>

theorem emitted_sample_current_run:
  assumes "i < length (tasks s)"
      and "tasks s ! i = (name, AtSelect list w ws)"
      and "select_send ready (ctx_err s) coin = Some SendCase"
  shows "\<exists>s' m. step ns config s (Select i ready coin) = Some s' \<and> ch s' = ch s @ [(i, m)] \<and>
           (CurrentRun w = None \<longrightarrow>
              label m ''current_run'' = Some ''na'' \<and>
              label m ''current_run_status'' = Some ''na'' \<and>
              label m ''current_run_created_at'' = Some ''na'') \<and>
           (\<forall>r. CurrentRun w = Some r \<longrightarrow>
              label m ''current_run'' = Some (run.ID r) \<and>
              label m ''current_run_status'' = Some (Status r) \<and>
              label m ''current_run_created_at'' = Some (Time_String (run.CreatedAt r)))"
proof -
  let ?m = "workspaceMetric ns w"
  have "step ns config s (Select i ready coin) =
          Some (goto i name (range_items list ws) (s\<lparr>ch := ch s @ [(i, ?m)]\<rparr>))"
    using assms by (rule step_Select_send)
  moreover have "CurrentRun w = None \<longrightarrow>
              label ?m ''current_run'' = Some ''na'' \<and>
              label ?m ''current_run_status'' = Some ''na'' \<and>
              label ?m ''current_run_created_at'' = Some ''na''"
    by (simp add: workspaceMetric_labels getCurrentRunID_def getCurrentRunStatus_def
        getCurrentRunCreatedAt_def)
  moreover have "\<forall>r. CurrentRun w = Some r \<longrightarrow>
              label ?m ''current_run'' = Some (run.ID r) \<and>
              label ?m ''current_run_status'' = Some (Status r) \<and>
              label ?m ''current_run_created_at'' = Some (Time_String (run.CreatedAt r))"
    by (simp add: workspaceMetric_labels getCurrentRunID_def getCurrentRunStatus_def
        getCurrentRunCreatedAt_def)
  ultimately show ?thesis by simp
qed

theorem emitted_sample_current_run_witness:
  "(\<exists>s' m. step ''tf'' (demo_config [''acme'']) (acme_at_w1 None) (Select 0 True False) = Some s' \<and>
       ch s' = [(0, m)] \<and> CurrentRun w1 = None \<and>
       label m ''current_run'' = Some ''na'' \<and>
       label m ''current_run_status'' = Some ''na'' \<and>
       label m ''current_run_created_at'' = Some ''na'') \<and>
   (\<exists>s' m. step ''tf'' (demo_config [''acme'']) acme_at_w2 (Select 0 True False) = Some s' \<and>
       ch s' = [(0, workspaceMetric ''tf'' w1), (0, m)] \<and>
       label m ''current_run'' = Some ''run-9'' \<and>
       label m ''current_run_status'' = Some ''applied'' \<and>
       label m ''current_run_created_at'' = Some ''2021-02-01 00:00:00 +0000 UTC'')"
proof -
  have a: "(0::nat) < length (tasks (acme_at_w1 None))"
    and b: "tasks (acme_at_w1 None) ! 0 = (''acme'', AtSelect acme_page1 w1 [])"
    and c: "select_send True (ctx_err (acme_at_w1 None)) False = Some SendCase"
    by (simp_all add: acme_at_w1_def select_send_def)
  have a2: "(0::nat) < length (tasks acme_at_w2)"
    and b2: "tasks acme_at_w2 ! 0 = (''acme'', AtSelect acme_page2 w2 [])"
    and c2: "select_send True (ctx_err acme_at_w2) False = Some SendCase"
    by (simp_all add: acme_at_w2_def select_send_def)
  have r: "CurrentRun w2 = Some \<lparr>run.ID = ''run-9'', Status = ''applied'',
             CreatedAt = Time ''2021-02-01 00:00:00 +0000 UTC''\<rparr>"
    by (simp add: w2_def)
  have n: "CurrentRun w1 = None"
    by (simp add: w1_def)
  from emitted_sample_current_run [OF a b c, of "''tf''" "demo_config [''acme'']"] n
  have 1: "\<exists>s' m. step ''tf'' (demo_config [''acme'']) (acme_at_w1 None) (Select 0 True False) = Some s' \<and>
       ch s' = [(0, m)] \<and> CurrentRun w1 = None \<and>
       label m ''current_run'' = Some ''na'' \<and>
       label m ''current_run_status'' = Some ''na'' \<and>
       label m ''current_run_created_at'' = Some ''na''"
    by (simp add: acme_at_w1_def)
  from emitted_sample_current_run [OF a2 b2 c2, of "''tf''" "demo_config [''acme'']"] r
  have 2: "\<exists>s' m. step ''tf'' (demo_config [''acme'']) acme_at_w2 (Select 0 True False) = Some s' \<and>
       ch s' = [(0, workspaceMetric ''tf'' w1), (0, m)] \<and>
       label m ''current_run'' = Some ''run-9'' \<and>
       label m ''current_run_status'' = Some ''applied'' \<and>
       label m ''current_run_created_at'' = Some ''2021-02-01 00:00:00 +0000 UTC''"
    by (simp add: acme_at_w2_def)
  from 1 2 show ?thesis by (rule conjI)
qed

section \<open>The error of a failed page\<close>

lemma sublist_mid: "sublist xs (ps @ xs @ ss)"
  by (auto simp: sublist_def)

text \<open>
  C2, as the code has it. When the upstream call of a goroutine fails with \<open>err\<close>, the
  goroutine returns the text of \<open>err\<close> followed by
  \<open>, (organization=NAME, page=PAGE)\<close>, and the group keeps it unless it holds an error
  already. The message contains the upstream error, the organization and the page
  number.
\<close>

theorem page_fetch_error:
  assumes "i < length (tasks s)"
      and "tasks s ! i = (name, AtList page)"
      and "List (Workspaces (Client config)) (ctx_err s) name
             \<lparr>ListOptions = \<lparr>PageSize = pageSize, PageNumber = page\<rparr>,
              Include = [''current_run'']\<rparr> = Inl err"
  shows "\<exists>s' msg. step ns config s (ListReturns i) = Some s' \<and>
           tasks s' ! i = (name, Returned (Some msg)) \<and>
           g_err s' = (if g_err s = None then Some msg else g_err s) \<and>
           msg = err @ '', (organization='' @ name @ '', page='' @ Sprint_d page @ '')'' \<and>
           sublist err msg \<and> sublist name msg \<and> sublist (Sprint_d page) msg"
proof -
  let ?msg = "err @ '', (organization='' @ name @ '', page='' @ Sprint_d page @ '')''"
  let ?s1 = "s\<lparr>calls := calls s @
                 [(i, ctx_err s, name,
                   \<lparr>ListOptions = \<lparr>PageSize = pageSize, PageNumber = page\<rparr>,
                    Include = [''current_run'']\<rparr>)]\<rparr>"
  let ?s' = "goto i name (Returned (Some ?msg)) ?s1"
  have g: "getWorkspacesListPage_List config (ctx_err s) page name = Inl ?msg"
    using assms(3) by (simp add: getWorkspacesListPage_List_def)
  have st: "step ns config s (ListReturns i) = Some ?s'"
    using step_ListReturns [OF assms(1,2), of ns config] g by simp
  have t: "tasks ?s' ! i = (name, Returned (Some ?msg))"
    using assms(1) by simp
  have ge: "g_err ?s' = (if g_err s = None then Some ?msg else g_err s)"
    by (simp add: g_err_goto)
  have s1: "sublist err ?msg"
    using sublist_mid [of err "[]"] by simp
  have s2: "sublist name ?msg"
    using sublist_mid [of name "err @ '', (organization=''"] by simp
  have s3: "sublist (Sprint_d page) ?msg"
    using sublist_mid [of "Sprint_d page" "err @ '', (organization='' @ name @ '', page=''" "'')''"]
    by simp
  from st t ge s1 s2 s3 show ?thesis by blast
qed

theorem page_fetch_error_witness:
  "tasks down_at_list ! 0 = (''down'', AtList 1) \<and>
   List (Workspaces (Client (demo_config [''down'']))) (ctx_err down_at_list) ''down''
     \<lparr>ListOptions = \<lparr>PageSize = pageSize, PageNumber = 1\<rparr>, Include = [''current_run'']\<rparr>
     = Inl ''boom'' \<and>
   (\<exists>s'. step ''tf'' (demo_config [''down'']) down_at_list (ListReturns 0) = Some s' \<and>
      tasks s' ! 0 = (''down'', Returned (Some ''boom, (organization=down, page=1)'')) \<and>
      g_err s' = Some ''boom, (organization=down, page=1)'')"
proof -
  have a: "(0::nat) < length (tasks down_at_list)"
    and b: "tasks down_at_list ! 0 = (''down'', AtList 1)"
    and c: "List (Workspaces (Client (demo_config [''down'']))) (ctx_err down_at_list) ''down''
     \<lparr>ListOptions = \<lparr>PageSize = pageSize, PageNumber = 1\<rparr>, Include = [''current_run'']\<rparr>
     = Inl ''boom''"
    and d: "g_err down_at_list = None"
    by (simp_all add: down_at_list_def demo_config_def demo_List_def)
  have e: "Sprint_d 1 = ''1''"
    by code_simp
  from page_fetch_error [OF a b c, of "''tf''"] d e b c show ?thesis
    by auto
qed

text \<open>
  C2, as stated, asks for the scraper name as well. For the organization \<open>down\<close>, whose
  first page fails with \<open>boom\<close>, \<open>Scrape\<close> returns
  \<open>boom, (organization=down, page=1)\<close>, and the scraper name \<open>workspaces\<close> does not
  occur in it.
\<close>

theorem page_error_lacks_scraper_name:
  "map_option returned (Scrape ''tf'' None (demo_config [''down'']) [Go, ListReturns 0, WaitReturns])
     = Some (Some (Some ''boom, (organization=down, page=1)'')) \<and>
   \<not> sublist ScrapeWorkspaces_Name ''boom, (organization=down, page=1)''"
proof -
  have "\<not> sublist ScrapeWorkspaces_Name ''boom, (organization=down, page=1)''"
    unfolding ScrapeWorkspaces_Name_def workspacesSubsystem_def by code_simp
  moreover have "map_option returned
       (Scrape ''tf'' None (demo_config [''down'']) [Go, ListReturns 0, WaitReturns])
     = Some (Some (Some ''boom, (organization=down, page=1)''))"
    by code_simp
  ultimately show ?thesis by simp
qed

section \<open>Cancellation at a channel write\<close>

text \<open>
  A goroutine that has returned stays as it is: later steps change neither its result
  nor what it has sent or requested.
\<close>

lemma step_Returned_stable:
  assumes "step ns config s ev = Some s'" "i < length (tasks s)" "tasks s ! i = (name, Returned r)"
  shows "tasks s' ! i = (name, Returned r) \<and> samples_of i s' = samples_of i s \<and>
         calls_of i s' = calls_of i s \<and> i < length (tasks s')"
  using assms(1)
proof (cases rule: step_cases)
  case (Go name rest)
  with assms show ?thesis by (simp add: nth_append samples_of_def calls_of_def)
next
  case (List j name' page)
  with assms have "j \<noteq> i" by auto
  with List assms show ?thesis by (simp add: samples_of_def calls_of_def)
next
  case (Send j ready coin name' list w ws)
  with assms have "j \<noteq> i" by auto
  with Send assms show ?thesis by (simp add: samples_of_def calls_of_def)
next
  case (Done j ready coin name' list w ws e)
  with assms have "j \<noteq> i" by auto
  with Done assms show ?thesis by (simp add: samples_of_def calls_of_def)
next
  case (Parent e)
  with assms show ?thesis by (simp add: samples_of_def calls_of_def)
next
  case Wait
  with assms show ?thesis by (simp add: samples_of_def calls_of_def)
qed

lemma steps_Returned_stable:
  assumes "steps ns config s evs = Some s'" "i < length (tasks s)" "tasks s ! i = (name, Returned r)"
  shows "tasks s' ! i = (name, Returned r) \<and> samples_of i s' = samples_of i s \<and>
         calls_of i s' = calls_of i s \<and> i < length (tasks s')"
  using assms
proof (induction evs arbitrary: s)
  case Nil
  then show ?case by simp
next
  case (Cons ev evs)
  from Cons.prems(1) obtain t where t: "step ns config s ev = Some t" "steps ns config t evs = Some s'"
    by (auto split: option.splits)
  from step_Returned_stable [OF t(1) Cons.prems(2,3)] Cons.IH [OF t(2)]
  show ?case by simp
qed

text \<open>
  C6, as the code has it. A goroutine is at the \<open>select\<close> for a record and the context
  is cancelled with error \<open>e\<close>.
  \<^item> If the channel cannot take the sample, the \<open>select\<close> takes the \<open>Done\<close> case: the
    goroutine returns \<open>e\<close>, nothing is added to the channel, and whatever happens
    afterwards the goroutine stays returned and sends nothing more, so neither this
    record nor the rest of the page is sent.
  \<^item> If the channel can take the sample, both cases of the \<open>select\<close> can proceed and
    either may run: the \<open>Done\<close> case, with the same outcome, or the send, which writes
    the sample and goes on with the rest of the page.
\<close>

theorem select_cancelled:
  assumes "i < length (tasks s)"
      and "tasks s ! i = (name, AtSelect list w ws)"
      and "ctx_err s = Some e"
  shows "(\<exists>s'. step ns config s (Select i False coin) = Some s' \<and>
           tasks s' ! i = (name, Returned (Some e)) \<and> ch s' = ch s \<and>
           (\<forall>evs s''. steps ns config s' evs = Some s'' \<longrightarrow>
              tasks s'' ! i = (name, Returned (Some e)) \<and> samples_of i s'' = samples_of i s)) \<and>
         (\<exists>s'. step ns config s (Select i True False) = Some s' \<and>
           tasks s' ! i = (name, Returned (Some e)) \<and> ch s' = ch s \<and>
           (\<forall>evs s''. steps ns config s' evs = Some s'' \<longrightarrow>
              tasks s'' ! i = (name, Returned (Some e)) \<and> samples_of i s'' = samples_of i s)) \<and>
         (\<exists>s'. step ns config s (Select i True True) = Some s' \<and>
           tasks s' ! i = (name, range_items list ws) \<and>
           ch s' = ch s @ [(i, workspaceMetric ns w)])"
proof -
  let ?s' = "goto i name (Returned (Some e)) s"
  have t: "tasks ?s' ! i = (name, Returned (Some e))" and l: "i < length (tasks ?s')"
    using assms(1) by simp_all
  have sm: "samples_of i ?s' = samples_of i s"
    by (simp add: samples_of_def)
  have after: "\<forall>evs s''. steps ns config ?s' evs = Some s'' \<longrightarrow>
              tasks s'' ! i = (name, Returned (Some e)) \<and> samples_of i s'' = samples_of i s"
    using steps_Returned_stable [OF _ l t] sm by auto
  have done_case: "\<exists>s'. step ns config s (Select i ready coin') = Some s' \<and>
           tasks s' ! i = (name, Returned (Some e)) \<and> ch s' = ch s \<and>
           (\<forall>evs s''. steps ns config s' evs = Some s'' \<longrightarrow>
              tasks s'' ! i = (name, Returned (Some e)) \<and> samples_of i s'' = samples_of i s)"
    if sel: "select_send ready (ctx_err s) coin' = Some (DoneCase e)" for ready coin'
  proof -
    have st: "step ns config s (Select i ready coin') = Some ?s'"
      by (rule step_Select_done [OF assms(1,2) sel])
    have c: "ch ?s' = ch s" by simp
    show ?thesis
      by (rule exI [of _ ?s'], intro conjI) (rule st, rule t, rule c, rule after)
  qed
  have 1: "\<exists>s'. step ns config s (Select i False coin) = Some s' \<and>
           tasks s' ! i = (name, Returned (Some e)) \<and> ch s' = ch s \<and>
           (\<forall>evs s''. steps ns config s' evs = Some s'' \<longrightarrow>
              tasks s'' ! i = (name, Returned (Some e)) \<and> samples_of i s'' = samples_of i s)"
    by (rule done_case) (simp add: assms(3) select_send_def)
  have 2: "\<exists>s'. step ns config s (Select i True False) = Some s' \<and>
           tasks s' ! i = (name, Returned (Some e)) \<and> ch s' = ch s \<and>
           (\<forall>evs s''. steps ns config s' evs = Some s'' \<longrightarrow>
              tasks s'' ! i = (name, Returned (Some e)) \<and> samples_of i s'' = samples_of i s)"
    by (rule done_case) (simp add: assms(3) select_send_def)
  let ?t = "goto i name (range_items list ws) (s\<lparr>ch := ch s @ [(i, workspaceMetric ns w)]\<rparr>)"
  have sel: "select_send True (ctx_err s) True = Some SendCase"
    by (simp add: assms(3) select_send_def)
  have st: "step ns config s (Select i True True) = Some ?t"
    by (rule step_Select_send [OF assms(1,2) sel])
  have tt: "tasks ?t ! i = (name, range_items list ws)"
    using assms(1) by simp
  have ct: "ch ?t = ch s @ [(i, workspaceMetric ns w)]"
    by simp
  have 3: "\<exists>s'. step ns config s (Select i True True) = Some s' \<and>
           tasks s' ! i = (name, range_items list ws) \<and>
           ch s' = ch s @ [(i, workspaceMetric ns w)]"
    by (rule exI [of _ ?t], intro conjI) (rule st, rule tt, rule ct)
  from 1 2 3 show ?thesis by (intro conjI)
qed

theorem select_cancelled_witness:
  "tasks (acme_at_w1 (Some Canceled)) ! 0 = (''acme'', AtSelect acme_page1 w1 []) \<and>
   ctx_err (acme_at_w1 (Some Canceled)) = Some Canceled \<and>
   (\<exists>s'. step ''tf'' (demo_config [''acme'']) (acme_at_w1 (Some Canceled)) (Select 0 False True) = Some s' \<and>
      tasks s' ! 0 = (''acme'', Returned (Some Canceled)) \<and> ch s' = [] \<and>
      samples_of 0 s' = []) \<and>
   (\<exists>s'. step ''tf'' (demo_config [''acme'']) (acme_at_w1 (Some Canceled)) (Select 0 True True) = Some s' \<and>
      tasks s' ! 0 = (''acme'', AtList 2) \<and> ch s' = [(0, workspaceMetric ''tf'' w1)])"
proof -
  have n: "range_items acme_page1 [] = AtList 2"
    by (simp add: range_items_def next_page_def acme_page1_def)
  have a: "(0::nat) < length (tasks (acme_at_w1 (Some Canceled)))"
    and b: "tasks (acme_at_w1 (Some Canceled)) ! 0 = (''acme'', AtSelect acme_page1 w1 [])"
    and c: "ctx_err (acme_at_w1 (Some Canceled)) = Some Canceled"
    and d: "ch (acme_at_w1 (Some Canceled)) = []"
    and e: "samples_of 0 (acme_at_w1 (Some Canceled)) = []"
    by (simp_all add: acme_at_w1_def samples_of_def)
  note T = select_cancelled [OF a b c, of "''tf''" "demo_config [''acme'']" True]
  from T [THEN conjunct1]
  obtain s' where s': "step ''tf'' (demo_config [''acme'']) (acme_at_w1 (Some Canceled)) (Select 0 False True) = Some s'"
    "tasks s' ! 0 = (''acme'', Returned (Some Canceled))" "ch s' = ch (acme_at_w1 (Some Canceled))"
    "\<forall>evs s''. steps ''tf'' (demo_config [''acme'']) s' evs = Some s'' \<longrightarrow>
        tasks s'' ! 0 = (''acme'', Returned (Some Canceled)) \<and>
        samples_of 0 s'' = samples_of 0 (acme_at_w1 (Some Canceled))"
    by blast
  from s'(4) have "samples_of 0 s' = samples_of 0 (acme_at_w1 (Some Canceled))"
    by (metis steps.simps(1))
  with s' d e have 1: "\<exists>s'. step ''tf'' (demo_config [''acme'']) (acme_at_w1 (Some Canceled)) (Select 0 False True) = Some s' \<and>
      tasks s' ! 0 = (''acme'', Returned (Some Canceled)) \<and> ch s' = [] \<and>
      samples_of 0 s' = []"
    by auto
  from T [THEN conjunct2, THEN conjunct2] n d
  have 2: "\<exists>s'. step ''tf'' (demo_config [''acme'']) (acme_at_w1 (Some Canceled)) (Select 0 True True) = Some s' \<and>
      tasks s' ! 0 = (''acme'', AtList 2) \<and> ch s' = [(0, workspaceMetric ''tf'' w1)]"
    by simp
  from b c 1 2 show ?thesis by (intro conjI)
qed

text \<open>
  C6, as stated, has the goroutine return without writing whenever the context is
  cancelled before the write. Here the context is cancelled from outside while the
  goroutine for \<open>acme\<close> is at the \<open>select\<close> for its first workspace; the channel can
  take the sample and the \<open>select\<close> runs the send: the sample is written and the
  goroutine goes on to request page 2.
\<close>

theorem select_cancelled_yet_sent:
  "map_option (\<lambda>s. (ctx_err s, tasks s, ch s))
     (Scrape ''tf'' None (demo_config [''acme'']) [Go, ListReturns 0, ParentDone Canceled])
   = Some (Some Canceled, [(''acme'', AtSelect acme_page1 w1 [])], []) \<and>
   map_option (\<lambda>s. (ctx_err s, tasks s, ch s))
     (Scrape ''tf'' None (demo_config [''acme''])
        [Go, ListReturns 0, ParentDone Canceled, Select 0 True True])
   = Some (Some Canceled, [(''acme'', AtList 2)], [(0, workspaceMetric ''tf'' w1)])"
  by (simp add: Scrape_def Scrape_init_def demo_config_def step.simps
      getWorkspacesListPage_List_def demo_List_def goto_def range_items_def next_page_def
      pageSize_def acme_page1_def select_send_def)

text \<open>
  The two outcomes of the \<open>select\<close> under a cancelled context and a ready channel.
\<close>

lemma select_send_race:
  "select_send True (Some e) True = Some SendCase \<and>
   select_send True (Some e) False = Some (DoneCase e)"
  by (simp add: select_send_def)

section \<open>No organizations\<close>

lemma Scrape_empty_inv:
  assumes "step ns config s ev = Some s'"
      and "pending s = [] \<and> tasks s = [] \<and> ch s = [] \<and> calls s = [] \<and> g_err s = None \<and>
           (returned s = None \<or> returned s = Some None)"
  shows "pending s' = [] \<and> tasks s' = [] \<and> ch s' = [] \<and> calls s' = [] \<and> g_err s' = None \<and>
           (returned s' = None \<or> returned s' = Some None)"
  using assms(1)
proof (cases rule: step_cases)
  case (Parent e)
  with assms(2) show ?thesis by simp
next
  case Wait
  with assms(2) show ?thesis by simp
qed (use assms(2) in simp_all)

text \<open>
  C10. With an empty list of organizations, \<open>g.Wait()\<close> can return at once and
  \<open>Scrape\<close> returns \<open>nil\<close>; and in every state a schedule can reach no goroutine was
  started, nothing was sent on the channel, no upstream call was made, and \<open>Scrape\<close>
  has either not returned or returned \<open>nil\<close>.
\<close>

theorem Scrape_no_organizations:
  assumes "Organizations config = []"
  shows "Scrape ns c config [WaitReturns] =
           Some ((Scrape_init c config)\<lparr>ctx_err := cancel c, returned := Some None\<rparr>) \<and>
         (\<forall>evs s. Scrape ns c config evs = Some s \<longrightarrow>
            tasks s = [] \<and> ch s = [] \<and> calls s = [] \<and>
            (returned s = None \<or> returned s = Some None))"
proof -
  have a: "Scrape ns c config [WaitReturns] =
           Some ((Scrape_init c config)\<lparr>ctx_err := cancel c, returned := Some None\<rparr>)"
    using assms by (simp add: Scrape_def Scrape_init_def step.simps all_returned_def)
  have b: "tasks s = [] \<and> ch s = [] \<and> calls s = [] \<and> (returned s = None \<or> returned s = Some None)"
    if run: "Scrape ns c config evs = Some s" for evs s
  proof -
    let ?P = "\<lambda>s. pending s = [] \<and> tasks s = [] \<and> ch s = [] \<and> calls s = [] \<and> g_err s = None \<and>
           (returned s = None \<or> returned s = Some None)"
    have "?P (Scrape_init c config)"
      using assms by (simp add: Scrape_init_def)
    with run have "?P s"
      unfolding Scrape_def by (rule steps_invariant) (rule Scrape_empty_inv)
    then show ?thesis by simp
  qed
  from a b show ?thesis by blast
qed

theorem Scrape_no_organizations_witness:
  "Organizations (demo_config []) = [] \<and>
   Scrape ''tf'' None (demo_config []) [WaitReturns] =
     Some \<lparr>pending = [], tasks = [], g_err = None, ctx_err = Some Canceled, ch = [], calls = [],
           returned = Some None\<rparr>"
proof -
  have a: "Organizations (demo_config []) = []"
    by (simp add: demo_config_def)
  from Scrape_no_organizations [OF a, of "''tf''" None] a show ?thesis
    by (simp add: Scrape_init_def cancel_def)
qed

section \<open>The first error wins\<close>

text \<open>
  The invariant of the group holds at the start and is kept by every step.
\<close>

lemma all_returned_nth:
  "all_returned s \<longleftrightarrow> (\<forall>j<length (tasks s). \<exists>r. snd (tasks s ! j) = Returned r)"
proof -
  have "(case p of Returned err \<Rightarrow> True | _ \<Rightarrow> False) \<longleftrightarrow> (\<exists>r. p = Returned r)" for p
    by (cases p) simp_all
  then show ?thesis
    by (simp add: all_returned_def list_all_length)
qed

lemma update_all_nth:
  assumes "i < length xs"
  shows "(\<forall>j<length xs. P (xs[i := x] ! j)) \<longleftrightarrow> P x \<and> (\<forall>j<length xs. j \<noteq> i \<longrightarrow> P (xs ! j))"
proof
  assume a: "\<forall>j<length xs. P (xs[i := x] ! j)"
  from a assms have "P (xs[i := x] ! i)" by blast
  with assms have "P x" by simp
  moreover have "P (xs ! j)" if "j < length xs" "j \<noteq> i" for j
    using a that by (metis nth_list_update_neq)
  ultimately show "P x \<and> (\<forall>j<length xs. j \<noteq> i \<longrightarrow> P (xs ! j))" by blast
next
  assume "P x \<and> (\<forall>j<length xs. j \<noteq> i \<longrightarrow> P (xs ! j))"
  then show "\<forall>j<length xs. P (xs[i := x] ! j)"
    using assms by (auto simp: nth_list_update)
qed

lemma cancel_not_None [simp]: "cancel c \<noteq> None"
  by (simp add: cancel_def split: option.split)

lemma cancel_Some [simp]: "cancel (Some e) = Some e"
  by (simp add: cancel_def)

lemma errgroup_inv_init: "errgroup_inv config (Scrape_init c config)"
  by (simp add: errgroup_inv_def Scrape_init_def)

lemma not_returned_running:
  assumes "errgroup_inv config s" "i < length (tasks s)" "tasks s ! i = (name, p)"
    "\<forall>r. p \<noteq> Returned r"
  shows "returned s = None"
proof (cases "returned s")
  case (Some r)
  with assms(1) have "all_returned s" by (simp add: errgroup_inv_def)
  with assms(2-4) show ?thesis by (auto simp: all_returned_nth)
qed simp

lemma errgroup_inv_goto:
  assumes inv: "errgroup_inv config s" and i: "i < length (tasks s)"
    and t: "tasks s ! i = (name, p)" and p: "\<forall>r. p \<noteq> Returned r"
    and s1: "tasks s1 = tasks s" "pending s1 = pending s" "g_err s1 = g_err s"
      "ctx_err s1 = ctx_err s" "returned s1 = returned s"
  shows "errgroup_inv config (goto i name q s1)"
proof -
  have r: "returned s = None" by (rule not_returned_running [OF inv i t p])
  have names: "map fst ((tasks s)[i := (name, q)]) = map fst (tasks s)"
    using i t by (simp add: map_update) (metis fst_conv list_update_id map_update)
  have old: "snd (tasks s ! i) \<noteq> Returned (Some e)" for e
    using t p by simp
  show ?thesis
  proof (cases "\<exists>e. q = Returned (Some e)")
    case True
    then obtain e where q: "q = Returned (Some e)" by blast
    show ?thesis
      using inv i r names unfolding errgroup_inv_def q
      by (auto simp: s1 g_err_goto ctx_err_goto nth_list_update)
  next
    case False
    then have g: "g_err (goto i name q s1) = g_err s" "ctx_err (goto i name q s1) = ctx_err s"
      by (auto simp: s1 g_err_goto ctx_err_goto split: pc.splits option.splits)
    have "(\<forall>j<length (tasks s). \<forall>e. snd ((tasks s)[i := (name, q)] ! j) \<noteq> Returned (Some e)) \<longleftrightarrow>
          (\<forall>j<length (tasks s). \<forall>e. snd (tasks s ! j) \<noteq> Returned (Some e))"
      using False old
        update_all_nth [OF i, of "\<lambda>t. \<forall>e. snd t \<noteq> Returned (Some e)" "(name, q)"]
      by (metis i snd_conv)
    then show ?thesis
      using inv r names unfolding errgroup_inv_def by (simp add: s1 g) (metis not_None_eq)
  qed
qed

lemma errgroup_inv_step:
  assumes "errgroup_inv config s" "step ns config s ev = Some s'"
  shows "errgroup_inv config s'"
  using assms(2)
proof (cases rule: step_cases)
  case (Go name rest)
  with assms(1) show ?thesis
    by (auto simp: errgroup_inv_def nth_append)
next
  case (List i name page)
  show ?thesis unfolding List(4)
    by (rule errgroup_inv_goto [OF assms(1) List(2,3)]) simp_all
next
  case (Send i ready coin name list w ws)
  show ?thesis unfolding Send(5)
    by (rule errgroup_inv_goto [OF assms(1) Send(2,3)]) simp_all
next
  case (Done i ready coin name list w ws e)
  show ?thesis unfolding Done(6)
    by (rule errgroup_inv_goto [OF assms(1) Done(2,3)]) simp_all
next
  case (Parent e)
  with assms(1) show ?thesis
    by (auto simp: errgroup_inv_def all_returned_def)
next
  case Wait
  with assms(1) show ?thesis
    by (auto simp: errgroup_inv_def all_returned_def)
qed

lemma errgroup_inv_Scrape:
  assumes "Scrape ns c config evs = Some s"
  shows "errgroup_inv config s"
  using assms errgroup_inv_init unfolding Scrape_def
  by (rule steps_invariant) (rule errgroup_inv_step)

text \<open>
  The error of the group never changes once it is set, and the step in which the first
  goroutine returns an error sets it to that error.
\<close>

lemma g_err_step:
  assumes "step ns config s ev = Some s'" "g_err s = Some e"
  shows "g_err s' = Some e"
  using assms(1)
proof (cases rule: step_cases)
  case (List i name page)
  then show ?thesis by (simp add: assms(2) g_err_goto split: pc.split option.split)
next
  case (Send i ready coin name list w ws)
  then show ?thesis by (simp add: assms(2) g_err_goto split: pc.split option.split)
next
  case (Done i ready coin name list w ws e)
  then show ?thesis by (simp add: assms(2) g_err_goto split: pc.split option.split)
qed (simp_all add: assms(2))

lemma g_err_steps:
  assumes "steps ns config s evs = Some s'" "g_err s = Some e"
  shows "g_err s' = Some e"
  using assms by (rule steps_invariant) (rule g_err_step)

lemma first_error_step:
  assumes st: "step ns config s ev = Some s'"
    and none: "\<forall>j<length (tasks s). \<forall>e'. snd (tasks s ! j) \<noteq> Returned (Some e')"
    and g: "g_err s = None"
    and i: "i < length (tasks s')" and t: "tasks s' ! i = (name, Returned (Some e))"
  shows "g_err s' = Some e"
  using st
proof (cases rule: step_cases)
  case (Go name' rest)
  with none i t show ?thesis
    by (auto simp: nth_append split: if_splits)
next
  case (List j name' page)
  with none i t g show ?thesis
    by (cases "j = i") (auto simp: g_err_goto nth_list_update)
next
  case (Send j ready coin name' list w ws)
  with none i t g show ?thesis
    by (cases "j = i") (auto simp: g_err_goto nth_list_update)
next
  case (Done j ready coin name' list w ws e')
  with none i t g show ?thesis
    by (cases "j = i") (auto simp: g_err_goto nth_list_update)
next
  case (Parent e')
  with none i t show ?thesis by auto
next
  case Wait
  with none i t show ?thesis by auto
qed

text \<open>
  C3, as the code has it. In every state a schedule of \<open>Scrape\<close> can reach:
  \<^item> if a goroutine has returned an error, the shared context is cancelled and the
    group holds an error;
  \<^item> if \<open>Scrape\<close> has returned, one goroutine was started per organization, all of
    them have returned, the value returned is the group's error, and it is \<open>nil\<close>
    exactly when every goroutine returned \<open>nil\<close>;
  \<^item> if, at some point of the schedule, no goroutine had returned an error yet and the
    next step made goroutine \<open>i\<close> return the error \<open>e\<close>, then from there on the group
    holds \<open>e\<close>, the context is cancelled, and \<open>Scrape\<close> can only return \<open>e\<close>;
  \<^item> if a goroutine has returned an error, every other goroutine that is at a
    \<open>select\<close> returns the error of the context when its \<open>select\<close> is resolved with a
    channel that cannot take the sample, and every other goroutine that is at an
    upstream call passes the cancelled context to that call.
  Whether the context was cancelled does not enter the condition for \<open>nil\<close>: the only
  errors \<open>Scrape\<close> returns are those its goroutines return.
\<close>

theorem Scrape_first_error_wins:
  assumes "Scrape ns c config evs = Some s"
  shows "(\<forall>i name e. i < length (tasks s) \<and> tasks s ! i = (name, Returned (Some e)) \<longrightarrow>
            ctx_err s \<noteq> None \<and> g_err s \<noteq> None) \<and>
         (\<forall>r. returned s = Some r \<longrightarrow>
            map fst (tasks s) = Organizations config \<and> all_returned s \<and> r = g_err s \<and>
            (r = None \<longleftrightarrow> (\<forall>i<length (tasks s). snd (tasks s ! i) = Returned None))) \<and>
         (\<forall>evs1 ev evs2 s1 s2 i name e.
            evs = evs1 @ ev # evs2 \<and> Scrape ns c config evs1 = Some s1 \<and>
            (\<forall>j<length (tasks s1). \<forall>e'. snd (tasks s1 ! j) \<noteq> Returned (Some e')) \<and>
            step ns config s1 ev = Some s2 \<and>
            i < length (tasks s2) \<and> tasks s2 ! i = (name, Returned (Some e)) \<longrightarrow>
            g_err s = Some e \<and> ctx_err s \<noteq> None \<and> (\<forall>r. returned s = Some r \<longrightarrow> r = Some e)) \<and>
         (\<forall>i name e j nm. i < length (tasks s) \<and> tasks s ! i = (name, Returned (Some e)) \<and>
            j < length (tasks s) \<longrightarrow>
            (\<forall>l w ws coin. tasks s ! j = (nm, AtSelect l w ws) \<longrightarrow>
               (\<exists>e' s'. ctx_err s = Some e' \<and> step ns config s (Select j False coin) = Some s' \<and>
                  tasks s' ! j = (nm, Returned (Some e')) \<and> ch s' = ch s)) \<and>
            (\<forall>page. tasks s ! j = (nm, AtList page) \<longrightarrow>
               (\<exists>e' s'. ctx_err s = Some e' \<and> step ns config s (ListReturns j) = Some s' \<and>
                  calls_of j s' = calls_of j s @ [(Some e', nm, request_options page)])))"
proof -
  have inv: "errgroup_inv config s"
    using assms by (rule errgroup_inv_Scrape)
  have 1: "ctx_err s \<noteq> None \<and> g_err s \<noteq> None"
    if "i < length (tasks s)" "tasks s ! i = (name, Returned (Some e))" for i name e
  proof -
    from that inv have "g_err s \<noteq> None"
      unfolding errgroup_inv_def by (metis snd_conv)
    with inv show ?thesis by (simp add: errgroup_inv_def)
  qed
  have 2: "map fst (tasks s) = Organizations config \<and> all_returned s \<and> r = g_err s \<and>
            (r = None \<longleftrightarrow> (\<forall>i<length (tasks s). snd (tasks s ! i) = Returned None))"
    if r: "returned s = Some r" for r
  proof -
    from inv r have a: "r = g_err s" "pending s = []" "all_returned s"
      by (simp_all add: errgroup_inv_def)
    from inv have "map fst (tasks s) @ pending s = Organizations config"
      by (simp add: errgroup_inv_def)
    with a(2) have n: "map fst (tasks s) = Organizations config"
      by simp
    from inv have b: "g_err s = None \<longleftrightarrow>
        (\<forall>j<length (tasks s). \<forall>e. snd (tasks s ! j) \<noteq> Returned (Some e))"
      by (simp add: errgroup_inv_def)
    have "(\<forall>j<length (tasks s). \<forall>e. snd (tasks s ! j) \<noteq> Returned (Some e)) \<longleftrightarrow>
          (\<forall>i<length (tasks s). snd (tasks s ! i) = Returned None)"
      using a(3) unfolding all_returned_nth by (metis not_None_eq pc.inject(3) option.distinct(1))
    with a b n show ?thesis by simp
  qed
  have 3: "g_err s = Some e \<and> ctx_err s \<noteq> None \<and> (\<forall>r. returned s = Some r \<longrightarrow> r = Some e)"
    if evs: "evs = evs1 @ ev # evs2" and s1: "Scrape ns c config evs1 = Some s1"
      and none: "\<forall>j<length (tasks s1). \<forall>e'. snd (tasks s1 ! j) \<noteq> Returned (Some e')"
      and st: "step ns config s1 ev = Some s2"
      and i: "i < length (tasks s2)" and t: "tasks s2 ! i = (name, Returned (Some e))"
    for evs1 ev evs2 s1 s2 i name e
  proof -
    have inv1: "errgroup_inv config s1"
      using s1 by (rule errgroup_inv_Scrape)
    with none have "g_err s1 = None" by (simp add: errgroup_inv_def)
    then have g2: "g_err s2 = Some e" by (rule first_error_step [OF st none _ i t])
    from assms evs s1 st have "steps ns config s2 evs2 = Some s"
      by (simp add: Scrape_def steps_append)
    then have g: "g_err s = Some e" using g2 by (rule g_err_steps)
    with inv show ?thesis by (simp add: errgroup_inv_def)
  qed
  have 4: "(\<forall>l w ws coin. tasks s ! j = (nm, AtSelect l w ws) \<longrightarrow>
               (\<exists>e' s'. ctx_err s = Some e' \<and> step ns config s (Select j False coin) = Some s' \<and>
                  tasks s' ! j = (nm, Returned (Some e')) \<and> ch s' = ch s)) \<and>
            (\<forall>page. tasks s ! j = (nm, AtList page) \<longrightarrow>
               (\<exists>e' s'. ctx_err s = Some e' \<and> step ns config s (ListReturns j) = Some s' \<and>
                  calls_of j s' = calls_of j s @ [(Some e', nm, request_options page)]))"
    if i: "i < length (tasks s)" and t: "tasks s ! i = (name, Returned (Some e))"
      and j: "j < length (tasks s)" for i name e j nm
  proof -
    from 1 [OF i t] obtain e' where e': "ctx_err s = Some e'" by auto
    have a: "\<exists>e' s'. ctx_err s = Some e' \<and> step ns config s (Select j False coin) = Some s' \<and>
                  tasks s' ! j = (nm, Returned (Some e')) \<and> ch s' = ch s"
      if p: "tasks s ! j = (nm, AtSelect l w ws)" for l w ws coin
    proof -
      let ?s' = "goto j nm (Returned (Some e')) s"
      have sel: "select_send False (ctx_err s) coin = Some (DoneCase e')"
        by (simp add: e' select_send_def)
      have st: "step ns config s (Select j False coin) = Some ?s'"
        by (rule step_Select_done [OF j p sel])
      have tj: "tasks ?s' ! j = (nm, Returned (Some e'))" using j by simp
      have cj: "ch ?s' = ch s" by simp
      show ?thesis
        by (rule exI [of _ e'], rule exI [of _ ?s'], intro conjI) (rule e', rule st, rule tj, rule cj)
    qed
    have b: "\<exists>e' s'. ctx_err s = Some e' \<and> step ns config s (ListReturns j) = Some s' \<and>
                  calls_of j s' = calls_of j s @ [(Some e', nm, request_options page)]"
      if p: "tasks s ! j = (nm, AtList page)" for page
    proof -
      let ?s' = "goto j nm
            (case getWorkspacesListPage_List config (ctx_err s) page nm of
               Inl err \<Rightarrow> Returned (Some err)
             | Inr list \<Rightarrow> range_items list (Items list))
            (s\<lparr>calls := calls s @
                 [(j, ctx_err s, nm,
                   \<lparr>ListOptions = \<lparr>PageSize = pageSize, PageNumber = page\<rparr>,
                    Include = [''current_run'']\<rparr>)]\<rparr>)"
      have st: "step ns config s (ListReturns j) = Some ?s'"
        by (rule step_ListReturns [OF j p])
      have cj: "calls_of j ?s' = calls_of j s @ [(Some e', nm, request_options page)]"
        by (simp add: e' request_options_def)
      show ?thesis
        by (rule exI [of _ e'], rule exI [of _ ?s'], intro conjI) (rule e', rule st, rule cj)
    qed
    from a b show ?thesis by blast
  qed
  have first3: "(\<forall>i name e. i < length (tasks s) \<and> tasks s ! i = (name, Returned (Some e)) \<longrightarrow>
            ctx_err s \<noteq> None \<and> g_err s \<noteq> None) \<and>
         (\<forall>r. returned s = Some r \<longrightarrow>
            map fst (tasks s) = Organizations config \<and> all_returned s \<and> r = g_err s \<and>
            (r = None \<longleftrightarrow> (\<forall>i<length (tasks s). snd (tasks s ! i) = Returned None))) \<and>
         (\<forall>evs1 ev evs2 s1 s2 i name e.
            evs = evs1 @ ev # evs2 \<and> Scrape ns c config evs1 = Some s1 \<and>
            (\<forall>j<length (tasks s1). \<forall>e'. snd (tasks s1 ! j) \<noteq> Returned (Some e')) \<and>
            step ns config s1 ev = Some s2 \<and>
            i < length (tasks s2) \<and> tasks s2 ! i = (name, Returned (Some e)) \<longrightarrow>
            g_err s = Some e \<and> ctx_err s \<noteq> None \<and> (\<forall>r. returned s = Some r \<longrightarrow> r = Some e))"
    using 1 2 3 by blast
  have sib: "\<forall>i name e j nm. i < length (tasks s) \<and> tasks s ! i = (name, Returned (Some e)) \<and>
            j < length (tasks s) \<longrightarrow>
            (\<forall>l w ws coin. tasks s ! j = (nm, AtSelect l w ws) \<longrightarrow>
               (\<exists>e' s'. ctx_err s = Some e' \<and> step ns config s (Select j False coin) = Some s' \<and>
                  tasks s' ! j = (nm, Returned (Some e')) \<and> ch s' = ch s)) \<and>
            (\<forall>page. tasks s ! j = (nm, AtList page) \<longrightarrow>
               (\<exists>e' s'. ctx_err s = Some e' \<and> step ns config s (ListReturns j) = Some s' \<and>
                  calls_of j s' = calls_of j s @ [(Some e', nm, request_options page)]))"
  proof (intro allI impI, elim conjE)
    fix i name e j nm
    assume "i < length (tasks s)" "tasks s ! i = (name, Returned (Some e))" "j < length (tasks s)"
    then show "(\<forall>l w ws coin. tasks s ! j = (nm, AtSelect l w ws) \<longrightarrow>
               (\<exists>e' s'. ctx_err s = Some e' \<and> step ns config s (Select j False coin) = Some s' \<and>
                  tasks s' ! j = (nm, Returned (Some e')) \<and> ch s' = ch s)) \<and>
            (\<forall>page. tasks s ! j = (nm, AtList page) \<longrightarrow>
               (\<exists>e' s'. ctx_err s = Some e' \<and> step ns config s (ListReturns j) = Some s' \<and>
                  calls_of j s' = calls_of j s @ [(Some e', nm, request_options page)]))"
      by (rule 4)
  qed
  show ?thesis
    by (intro conjI)
      (rule first3 [THEN conjunct1], rule first3 [THEN conjunct2, THEN conjunct1],
       rule first3 [THEN conjunct2, THEN conjunct2], rule sib)
qed

theorem Scrape_first_error_wins_witness:
  "(\<exists>t t'. Scrape ''tf'' None (demo_config [''acme'', ''down'']) sibling_schedule = Some t \<and>
     tasks t = [(''acme'', AtSelect acme_page1 w1 []),
                (''down'', Returned (Some ''boom, (organization=down, page=1)''))] \<and>
     ctx_err t = Some Canceled \<and>
     step ''tf'' (demo_config [''acme'', ''down'']) t (Select 0 False True) = Some t' \<and>
     tasks t' ! 0 = (''acme'', Returned (Some Canceled))) \<and>
   (\<exists>s s1 s2. Scrape ''tf'' None (demo_config [''acme'', ''down'']) demo_schedule = Some s \<and>
     Scrape ''tf'' None (demo_config [''acme'', ''down'']) (take 4 demo_schedule) = Some s1 \<and>
     step ''tf'' (demo_config [''acme'', ''down'']) s1 (ListReturns 1) = Some s2 \<and>
     map snd (tasks s1) = [AtList 2, AtList 1] \<and>
     tasks s2 ! 1 = (''down'', Returned (Some ''boom, (organization=down, page=1)'')) \<and>
     tasks s = [(''acme'', Returned (Some Canceled)),
                (''down'', Returned (Some ''boom, (organization=down, page=1)''))] \<and>
     returned s = Some (Some ''boom, (organization=down, page=1)'') \<and>
     ctx_err s \<noteq> None \<and> g_err s = Some ''boom, (organization=down, page=1)'')"
proof -
  let ?cfg = "demo_config [''acme'', ''down'']"
  let ?boom = "''boom, (organization=down, page=1)''"
  have "Scrape ''tf'' None ?cfg sibling_schedule \<noteq> None"
    unfolding sibling_schedule_def by code_simp
  then obtain t where t: "Scrape ''tf'' None ?cfg sibling_schedule = Some t" by blast
  have "map_option (\<lambda>s. (tasks s, ctx_err s)) (Scrape ''tf'' None ?cfg sibling_schedule)
     = Some ([(''acme'', AtSelect acme_page1 w1 []), (''down'', Returned (Some ?boom))],
          Some Canceled)"
    unfolding sibling_schedule_def Canceled_def acme_page1_def by code_simp
  with t have tt: "tasks t = [(''acme'', AtSelect acme_page1 w1 []), (''down'', Returned (Some ?boom))]"
    and tc: "ctx_err t = Some Canceled"
    by simp_all
  from tt have ti: "1 < length (tasks t)" "tasks t ! 1 = (''down'', Returned (Some ?boom))"
    "0 < length (tasks t)" "tasks t ! 0 = (''acme'', AtSelect acme_page1 w1 [])"
    by simp_all
  from Scrape_first_error_wins [OF t, THEN conjunct2, THEN conjunct2, THEN conjunct2,
      rule_format, of 1 "''down''" ?boom 0 "''acme''", THEN conjunct1, rule_format,
      of acme_page1 w1 "[]" True] ti
  obtain e' t' where sib: "ctx_err t = Some e'"
    "step ''tf'' ?cfg t (Select 0 False True) = Some t'" "tasks t' ! 0 = (''acme'', Returned (Some e'))"
    by blast
  from sib(1) tc have "e' = Canceled" by simp
  with sib have sib': "step ''tf'' ?cfg t (Select 0 False True) = Some t'"
    "tasks t' ! 0 = (''acme'', Returned (Some Canceled))"
    by simp_all
  have first: "\<exists>t t'. Scrape ''tf'' None ?cfg sibling_schedule = Some t \<and>
     tasks t = [(''acme'', AtSelect acme_page1 w1 []), (''down'', Returned (Some ?boom))] \<and>
     ctx_err t = Some Canceled \<and>
     step ''tf'' ?cfg t (Select 0 False True) = Some t' \<and>
     tasks t' ! 0 = (''acme'', Returned (Some Canceled))"
    by (rule exI [of _ t], rule exI [of _ t']) (simp only: t tt tc sib' simp_thms)
  have "Scrape ''tf'' None ?cfg demo_schedule \<noteq> None"
    unfolding demo_schedule_def by code_simp
  then obtain s where s: "Scrape ''tf'' None ?cfg demo_schedule = Some s" by blast
  have "Scrape ''tf'' None ?cfg (take 4 demo_schedule) \<noteq> None"
    unfolding demo_schedule_def by code_simp
  then obtain s1 where s1: "Scrape ''tf'' None ?cfg (take 4 demo_schedule) = Some s1" by blast
  have "Scrape ''tf'' None ?cfg (take 5 demo_schedule) \<noteq> None"
    unfolding demo_schedule_def by code_simp
  then obtain s2 where s2: "Scrape ''tf'' None ?cfg (take 5 demo_schedule) = Some s2" by blast
  have "take 5 demo_schedule = take 4 demo_schedule @ [ListReturns 1]"
    by (simp add: demo_schedule_def)
  with s1 s2 have st: "step ''tf'' ?cfg s1 (ListReturns 1) = Some s2"
    by (simp add: Scrape_def steps_append split: option.splits)
  have "map_option (\<lambda>s. map snd (tasks s)) (Scrape ''tf'' None ?cfg (take 4 demo_schedule))
          = Some [AtList 2, AtList 1]"
    unfolding demo_schedule_def by code_simp
  with s1 have t1: "map snd (tasks s1) = [AtList 2, AtList 1]" by simp
  then have l1: "length (tasks s1) = 2"
    by (metis length_map length_Cons list.size(3) numeral_2_eq_2)
  have none: "\<forall>j<length (tasks s1). \<forall>e'. snd (tasks s1 ! j) \<noteq> Returned (Some e')"
  proof (intro allI impI)
    fix j e' assume j: "j < length (tasks s1)"
    then have "snd (tasks s1 ! j) = map snd (tasks s1) ! j" by simp
    also have "\<dots> = [AtList 2, AtList 1] ! j" by (simp only: t1)
    finally show "snd (tasks s1 ! j) \<noteq> Returned (Some e')"
      using j l1 by (cases j) (auto simp: nth_Cons split: nat.splits)
  qed
  have "map_option (\<lambda>s. (length (tasks s), tasks s ! 1))
          (Scrape ''tf'' None ?cfg (take 5 demo_schedule)) = Some (2, ''down'', Returned (Some ?boom))"
    unfolding demo_schedule_def by code_simp
  with s2 have t2: "1 < length (tasks s2)" "tasks s2 ! 1 = (''down'', Returned (Some ?boom))"
    by simp_all
  have "map_option (\<lambda>s. (tasks s, returned s)) (Scrape ''tf'' None ?cfg demo_schedule)
     = Some ([(''acme'', Returned (Some Canceled)), (''down'', Returned (Some ?boom))],
          Some (Some ?boom))"
    unfolding demo_schedule_def Canceled_def by code_simp
  with s have ts: "tasks s = [(''acme'', Returned (Some Canceled)), (''down'', Returned (Some ?boom))]"
    and r: "returned s = Some (Some ?boom)"
    by simp_all
  have dec: "demo_schedule = take 4 demo_schedule @ ListReturns 1 # drop 5 demo_schedule"
    by (simp add: demo_schedule_def)
  from Scrape_first_error_wins [OF s, THEN conjunct2, THEN conjunct2, THEN conjunct1]
    dec s1 none st t2
  have g: "g_err s = Some ?boom \<and> ctx_err s \<noteq> None"
    by blast
  have second: "\<exists>s s1 s2. Scrape ''tf'' None ?cfg demo_schedule = Some s \<and>
     Scrape ''tf'' None ?cfg (take 4 demo_schedule) = Some s1 \<and>
     step ''tf'' ?cfg s1 (ListReturns 1) = Some s2 \<and>
     map snd (tasks s1) = [AtList 2, AtList 1] \<and>
     tasks s2 ! 1 = (''down'', Returned (Some ?boom)) \<and>
     tasks s = [(''acme'', Returned (Some Canceled)), (''down'', Returned (Some ?boom))] \<and>
     returned s = Some (Some ?boom) \<and>
     ctx_err s \<noteq> None \<and> g_err s = Some ?boom"
    by (rule exI [of _ s], rule exI [of _ s1], rule exI [of _ s2])
      (simp only: s s1 st t1 t2 ts r g simp_thms)
  from first second show ?thesis by (rule conjI)
qed

text \<open>
  C3, as stated, makes \<open>nil\<close> depend on the context never having been cancelled, and
  has every sibling observe the cancellation. Two runs against it.
  \<^item> The context given to \<open>Scrape\<close> is cancelled from outside after the goroutine for
    \<open>acme\<close> was started; the upstream still answers and every \<open>select\<close> runs its send.
    Before \<open>g.Wait()\<close> returns the context is cancelled, the goroutine has returned
    \<open>nil\<close> with both samples sent, and \<open>Scrape\<close> then returns \<open>nil\<close>.
  \<^item> The goroutine for \<open>down\<close> returns its error before the goroutine for \<open>acme\<close> has
    made its first call, so the group cancels the context. The upstream still answers
    \<open>acme\<close> and every \<open>select\<close> runs its send: the sibling returns \<open>nil\<close> with both
    samples sent, and \<open>Scrape\<close> returns the error of \<open>down\<close>.
\<close>

theorem Scrape_nil_after_outside_cancel:
  "map_option (\<lambda>s. (returned s, ctx_err s, tasks s, length (samples_of 0 s)))
     (Scrape ''tf'' None (demo_config [''acme''])
        [Go, ParentDone Canceled, ListReturns 0, Select 0 True True, ListReturns 0,
         Select 0 True True])
   = Some (None, Some Canceled, [(''acme'', Returned None)], 2) \<and>
   map_option (\<lambda>s. (returned s, ctx_err s, tasks s, length (samples_of 0 s)))
     (Scrape ''tf'' None (demo_config [''acme''])
        [Go, ParentDone Canceled, ListReturns 0, Select 0 True True, ListReturns 0,
         Select 0 True True, WaitReturns])
   = Some (Some None, Some Canceled, [(''acme'', Returned None)], 2) \<and>
   map_option (\<lambda>s. (returned s, ctx_err s, tasks s, length (samples_of 0 s)))
     (Scrape ''tf'' None (demo_config [''acme'', ''down''])
        [Go, Go, ListReturns 1, ListReturns 0, Select 0 True True, ListReturns 0,
         Select 0 True True, WaitReturns])
   = Some (Some (Some ''boom, (organization=down, page=1)''), Some Canceled,
           [(''acme'', Returned None),
            (''down'', Returned (Some ''boom, (organization=down, page=1)''))], 2)"
  unfolding Canceled_def by code_simp

section \<open>Every goroutine of a run is a goroutine on its own\<close>

text \<open>
  A goroutine that was just started has no entry in the logs; every step either leaves
  a goroutine and its part of the logs alone or is one of the moves of \<open>goroutine\<close>.
\<close>

lemma samples_of_fresh:
  assumes "\<forall>x\<in>set (ch s). fst x < n" "n \<le> i"
  shows "samples_of i s = []"
  using assms by (auto simp: samples_of_def filter_empty_conv)

lemma calls_of_fresh:
  assumes "\<forall>x\<in>set (calls s). fst x < n" "n \<le> i"
  shows "calls_of i s = []"
  using assms by (auto simp: calls_of_def filter_empty_conv)

lemma local_inv_init: "local_inv ns config (Scrape_init c config)"
  by (simp add: local_inv_def Scrape_init_def)

lemma local_inv_step:
  assumes inv: "local_inv ns config s" and st: "step ns config s ev = Some s'"
  shows "local_inv ns config s'"
proof -
  from inv have chb: "\<forall>x\<in>set (ch s). fst x < length (tasks s)"
    and cb: "\<forall>x\<in>set (calls s). fst x < length (tasks s)"
    and g: "\<And>i. i < length (tasks s) \<Longrightarrow>
        goroutine ns config (fst (tasks s ! i)) (snd (tasks s ! i)) (calls_of i s) (samples_of i s)"
    by (simp_all add: local_inv_def)
  from st show ?thesis
  proof (cases rule: step_cases)
    case (Go name rest)
    have new: "goroutine ns config name (AtList 1) (calls_of (length (tasks s)) s)
        (samples_of (length (tasks s)) s)"
      using samples_of_fresh [OF chb order_refl] calls_of_fresh [OF cb order_refl]
      by (simp add: goroutine.g_start)
    show ?thesis
      unfolding local_inv_def Go(3)
      using chb cb g new by (auto simp: nth_append less_Suc_eq)
  next
    case (List i name page)
    have "goroutine ns config name (AtList page) (calls_of i s) (samples_of i s)"
      using g [OF List(2)] List(3) by simp
    then have new: "goroutine ns config name (after_List config (ctx_err s) page name)
        (calls_of i s @ [(ctx_err s, name, request_options page)]) (samples_of i s)"
      by (rule goroutine.g_list)
    show ?thesis
      unfolding local_inv_def List(4)
      using chb cb g new List(2)
      by (auto simp: nth_list_update after_List_def request_options_def)
  next
    case (Send i ready coin name l w ws)
    have "goroutine ns config name (AtSelect l w ws) (calls_of i s) (samples_of i s)"
      using g [OF Send(2)] Send(3) by simp
    then have new: "goroutine ns config name (range_items l ws) (calls_of i s)
        (samples_of i s @ [workspaceMetric ns w])"
      by (rule goroutine.g_send)
    show ?thesis
      unfolding local_inv_def Send(5)
      using chb cb g new Send(2)
      by (auto simp: nth_list_update)
  next
    case (Done i ready coin name l w ws e)
    have "goroutine ns config name (AtSelect l w ws) (calls_of i s) (samples_of i s)"
      using g [OF Done(2)] Done(3) by simp
    then have new: "goroutine ns config name (Returned (Some e)) (calls_of i s) (samples_of i s)"
      by (rule goroutine.g_done)
    show ?thesis
      unfolding local_inv_def Done(6)
      using chb cb g new Done(2)
      by (auto simp: nth_list_update)
  next
    case (Parent e)
    show ?thesis
      unfolding local_inv_def Parent(4) using chb cb g by simp
  next
    case Wait
    show ?thesis
      unfolding local_inv_def Wait(5) using chb cb g by simp
  qed
qed

lemma goroutine_Scrape:
  assumes "Scrape ns c config evs = Some s" "i < length (tasks s)"
  shows "goroutine ns config (fst (tasks s ! i)) (snd (tasks s ! i)) (calls_of i s) (samples_of i s)"
proof -
  have "local_inv ns config s"
    using assms(1) local_inv_init unfolding Scrape_def
    by (rule steps_invariant) (rule local_inv_step)
  with assms(2) show ?thesis by (simp add: local_inv_def)
qed

section \<open>The page requested next\<close>

lemma range_items_AtList:
  "range_items l ws = AtList page \<longleftrightarrow> ws = [] \<and> NextPage (Pagination l) = page \<and> page \<noteq> 0"
  by (cases ws) (auto simp: range_items_def next_page_def)

lemma range_items_AtSelect:
  "range_items l ws = AtSelect l' w ws' \<longleftrightarrow> l' = l \<and> ws = w # ws'"
  by (cases ws) (auto simp: range_items_def next_page_def)

lemma range_items_Returned:
  "range_items l ws = Returned r \<longleftrightarrow> ws = [] \<and> NextPage (Pagination l) = 0 \<and> r = None"
  by (cases ws) (auto simp: range_items_def next_page_def)

lemma getWorkspacesListPage_List_response:
  "getWorkspacesListPage_List config c page name =
     (case response config (c, name, request_options page) of
        Inl err \<Rightarrow>
          Inl (err @ '', (organization='' @ name @ '', page='' @ Sprint_d page @ '')'')
      | Inr l \<Rightarrow> Inr l)"
  by (simp add: getWorkspacesListPage_List_def response_def request_options_def)

lemma after_List_AtList:
  "after_List config c page name = AtList page' \<longleftrightarrow>
     (\<exists>l. response config (c, name, request_options page) = Inr l \<and> Items l = [] \<and>
          NextPage (Pagination l) = page' \<and> page' \<noteq> 0)"
  by (auto simp: after_List_def getWorkspacesListPage_List_response range_items_AtList
      split: sum.splits)

lemma after_List_AtSelect:
  "after_List config c page name = AtSelect l w ws \<longleftrightarrow>
     response config (c, name, request_options page) = Inr l \<and> Items l = w # ws"
  by (auto simp: after_List_def getWorkspacesListPage_List_response range_items_AtSelect
      split: sum.splits)

lemma after_List_Returned_None:
  "after_List config c page name = Returned None \<longleftrightarrow>
     (\<exists>l. response config (c, name, request_options page) = Inr l \<and> Items l = [] \<and>
          NextPage (Pagination l) = 0)"
  by (auto simp: after_List_def getWorkspacesListPage_List_response range_items_Returned
      split: sum.splits)

lemma page_of_request [simp]: "page_of (c, name, request_options page) = page"
  by (simp add: page_of_def request_options_def)

lemma chain_inv_list:
  assumes inv: "chain_inv config name (AtList page) cs"
  shows "chain_inv config name (after_List config c page name)
           (cs @ [(c, name, request_options page)])"
proof -
  let ?x = "(c, name, request_options page)"
  let ?p = "after_List config c page name"
  from inv have forms: "\<forall>x\<in>set cs. \<exists>c page. x = (c, name, request_options page)"
    and first: "cs = [] \<longrightarrow> page = 1" "cs \<noteq> [] \<longrightarrow> page_of (hd cs) = 1"
    and chain: "\<And>k. Suc k < length cs \<Longrightarrow>
        \<exists>l. response config (cs ! k) = Inr l \<and> NextPage (Pagination l) \<noteq> 0 \<and>
             page_of (cs ! Suc k) = NextPage (Pagination l)"
    and lastc: "cs \<noteq> [] \<longrightarrow>
        (\<exists>l. response config (last cs) = Inr l \<and> NextPage (Pagination l) = page \<and> page \<noteq> 0)"
    by (simp_all add: chain_inv_def)
  have 1: "\<forall>x\<in>set (cs @ [?x]). \<exists>c page. x = (c, name, request_options page)"
    using forms by auto
  have 2: "page_of (hd (cs @ [?x])) = 1"
    using first by (cases cs) simp_all
  have 3: "\<exists>l. response config ((cs @ [?x]) ! k) = Inr l \<and> NextPage (Pagination l) \<noteq> 0 \<and>
             page_of ((cs @ [?x]) ! Suc k) = NextPage (Pagination l)"
    if k: "Suc k < length (cs @ [?x])" for k
  proof (cases "Suc k < length cs")
    case True
    with chain [OF True] show ?thesis by (simp add: nth_append)
  next
    case False
    with k have e: "Suc k = length cs" by simp
    then have ne: "cs \<noteq> []" by auto
    from e have "k = length cs - 1" by simp
    with ne have "cs ! k = last cs" by (simp add: last_conv_nth)
    with e ne lastc show ?thesis by (auto simp: nth_append)
  qed
  have 4: "\<exists>l. response config (last (cs @ [?x])) = Inr l \<and> NextPage (Pagination l) = page' \<and>
             page' \<noteq> 0" if "?p = AtList page'" for page'
    using that by (auto simp: after_List_AtList)
  have 5: "response config (last (cs @ [?x])) = Inr l" if "?p = AtSelect l w ws" for l w ws
    using that by (simp add: after_List_AtSelect)
  have 6: "\<exists>l. response config (last (cs @ [?x])) = Inr l \<and> NextPage (Pagination l) = 0"
    if "?p = Returned None"
    using that by (auto simp: after_List_Returned_None)
  show ?thesis
    unfolding chain_inv_def using 1 2 3 4 5 6 by (intro conjI allI impI) simp_all
qed

lemma chain_inv_send:
  assumes inv: "chain_inv config name (AtSelect l w ws) cs"
  shows "chain_inv config name (range_items l ws) cs"
  using inv unfolding chain_inv_def
  by (auto simp: range_items_AtList range_items_AtSelect range_items_Returned)

lemma chain_inv_done:
  assumes inv: "chain_inv config name (AtSelect l w ws) cs"
  shows "chain_inv config name (Returned (Some e)) cs"
  using inv unfolding chain_inv_def by auto

lemma goroutine_chain_inv:
  assumes "goroutine ns config name p cs ms"
  shows "chain_inv config name p cs"
  using assms
proof (induction rule: goroutine.induct)
  case g_start
  show ?case by (simp add: chain_inv_def)
next
  case (g_list page cs ms c)
  then show ?case by (simp add: chain_inv_list)
next
  case (g_send l w ws cs ms)
  then show ?case by (simp add: chain_inv_send)
next
  case (g_done l w ws cs ms e)
  then show ?case by (simp add: chain_inv_done)
qed

lemma chain_inv_first:
  assumes "chain_inv config name p cs"
  shows "cs = [] \<longrightarrow> p = AtList 1" and "cs \<noteq> [] \<longrightarrow> page_of (hd cs) = 1"
  using assms unfolding chain_inv_def by blast+

lemma chain_inv_next:
  assumes "chain_inv config name p cs" "Suc k < length cs"
  shows "\<exists>l. response config (cs ! k) = Inr l \<and> NextPage (Pagination l) \<noteq> 0 \<and>
             page_of (cs ! Suc k) = NextPage (Pagination l)"
  using assms unfolding chain_inv_def by blast

lemma chain_inv_AtSelect:
  assumes "chain_inv config name (AtSelect l w ws) cs"
  shows "cs \<noteq> []" and "response config (last cs) = Inr l"
  using assms unfolding chain_inv_def by blast+

lemma pages_of_page_of: "pages_of i s = map page_of (calls_of i s)"
  by (simp add: pages_of_def page_of_def)

text \<open>
  C5. For goroutine \<open>i\<close> in any state a schedule of \<open>Scrape\<close> can reach:
  \<^item> before its first upstream call it is about to request page 1, and the first page
    it has requested is page 1;
  \<^item> every later request is for the next page named by the answer to the request
    before it, and that next page was not zero;
  \<^item> when it is about to request a page, the upstream call can return, it is logged
    as a request for that page, and if it returns a page without records the goroutine
    returns \<open>nil\<close> when the next page of that page is zero and otherwise is about to
    request that next page;
  \<^item> when it is at the \<open>select\<close> for the last record of a page and the sample is
    sent, the page is the answer to its last request, and the goroutine returns \<open>nil\<close>
    when the next page of that page is zero and otherwise is about to request that next
    page.
  In the last two cases the group's error is left as it was.
\<close>

theorem fetch_loop_next_page:
  assumes "Scrape ns c config evs = Some s"
      and "i < length (tasks s)"
      and "tasks s ! i = (name, p)"
  shows "(calls_of i s = [] \<longrightarrow> p = AtList 1) \<and>
         (calls_of i s \<noteq> [] \<longrightarrow> hd (pages_of i s) = 1) \<and>
         (\<forall>k. Suc k < length (calls_of i s) \<longrightarrow>
            (\<exists>l. response config (calls_of i s ! k) = Inr l \<and> NextPage (Pagination l) \<noteq> 0 \<and>
                 pages_of i s ! Suc k = NextPage (Pagination l))) \<and>
         (\<forall>page. p = AtList page \<longrightarrow>
            (\<exists>s'. step ns config s (ListReturns i) = Some s' \<and>
               calls_of i s' = calls_of i s @ [(ctx_err s, name, request_options page)] \<and>
               (\<forall>l. response config (ctx_err s, name, request_options page) = Inr l \<and> Items l = [] \<longrightarrow>
                  g_err s' = g_err s \<and>
                  tasks s' ! i =
                    (name, if NextPage (Pagination l) = 0 then Returned None
                           else AtList (NextPage (Pagination l)))))) \<and>
         (\<forall>l w ready coin. p = AtSelect l w [] \<and> select_send ready (ctx_err s) coin = Some SendCase \<longrightarrow>
            response config (last (calls_of i s)) = Inr l \<and>
            (\<exists>s'. step ns config s (Select i ready coin) = Some s' \<and>
               g_err s' = g_err s \<and>
               tasks s' ! i =
                 (name, if NextPage (Pagination l) = 0 then Returned None
                        else AtList (NextPage (Pagination l)))))"
proof -
  have "goroutine ns config name p (calls_of i s) (samples_of i s)"
    using goroutine_Scrape [OF assms(1,2)] assms(3) by simp
  then have inv: "chain_inv config name p (calls_of i s)"
    by (rule goroutine_chain_inv)
  have 1: "calls_of i s = [] \<longrightarrow> p = AtList 1"
    by (rule chain_inv_first(1) [OF inv])
  have 2: "calls_of i s \<noteq> [] \<longrightarrow> hd (pages_of i s) = 1"
    using chain_inv_first(2) [OF inv] by (simp add: pages_of_page_of hd_map)
  have 3: "\<forall>k. Suc k < length (calls_of i s) \<longrightarrow>
            (\<exists>l. response config (calls_of i s ! k) = Inr l \<and> NextPage (Pagination l) \<noteq> 0 \<and>
                 pages_of i s ! Suc k = NextPage (Pagination l))"
  proof (intro allI impI)
    fix k assume k: "Suc k < length (calls_of i s)"
    then have "pages_of i s ! Suc k = page_of (calls_of i s ! Suc k)"
      by (simp add: pages_of_page_of)
    with chain_inv_next [OF inv k]
    show "\<exists>l. response config (calls_of i s ! k) = Inr l \<and> NextPage (Pagination l) \<noteq> 0 \<and>
                 pages_of i s ! Suc k = NextPage (Pagination l)"
      by simp
  qed
  have 4: "\<forall>page. p = AtList page \<longrightarrow>
            (\<exists>s'. step ns config s (ListReturns i) = Some s' \<and>
               calls_of i s' = calls_of i s @ [(ctx_err s, name, request_options page)] \<and>
               (\<forall>l. response config (ctx_err s, name, request_options page) = Inr l \<and> Items l = [] \<longrightarrow>
                  g_err s' = g_err s \<and>
                  tasks s' ! i =
                    (name, if NextPage (Pagination l) = 0 then Returned None
                           else AtList (NextPage (Pagination l)))))"
  proof (intro allI impI)
    fix page assume p: "p = AtList page"
    let ?s1 = "s\<lparr>calls := calls s @ [(i, ctx_err s, name, request_options page)]\<rparr>"
    let ?s' = "goto i name (after_List config (ctx_err s) page name) ?s1"
    have st: "step ns config s (ListReturns i) = Some ?s'"
      using step_ListReturns [OF assms(2) assms(3) [unfolded p], of ns config]
      by (simp add: after_List_def request_options_def)
    have cs: "calls_of i ?s' = calls_of i s @ [(ctx_err s, name, request_options page)]"
      by simp
    have nx: "\<forall>l. response config (ctx_err s, name, request_options page) = Inr l \<and> Items l = [] \<longrightarrow>
          g_err ?s' = g_err s \<and>
          tasks ?s' ! i = (name, if NextPage (Pagination l) = 0 then Returned None
                           else AtList (NextPage (Pagination l)))"
      using assms(2)
      by (simp add: after_List_def getWorkspacesListPage_List_response range_items_def
          next_page_def g_err_goto)
    show "\<exists>s'. step ns config s (ListReturns i) = Some s' \<and>
               calls_of i s' = calls_of i s @ [(ctx_err s, name, request_options page)] \<and>
               (\<forall>l. response config (ctx_err s, name, request_options page) = Inr l \<and> Items l = [] \<longrightarrow>
                  g_err s' = g_err s \<and>
                  tasks s' ! i =
                    (name, if NextPage (Pagination l) = 0 then Returned None
                           else AtList (NextPage (Pagination l))))"
      by (rule exI [of _ ?s'], intro conjI) (rule st, rule cs, rule nx)
  qed
  have 5: "\<forall>l w ready coin. p = AtSelect l w [] \<and> select_send ready (ctx_err s) coin = Some SendCase \<longrightarrow>
            response config (last (calls_of i s)) = Inr l \<and>
            (\<exists>s'. step ns config s (Select i ready coin) = Some s' \<and>
               g_err s' = g_err s \<and>
               tasks s' ! i =
                 (name, if NextPage (Pagination l) = 0 then Returned None
                        else AtList (NextPage (Pagination l))))"
  proof (intro allI impI, elim conjE)
    fix l w ready coin
    assume p: "p = AtSelect l w []" and sel: "select_send ready (ctx_err s) coin = Some SendCase"
    have r: "response config (last (calls_of i s)) = Inr l"
      by (rule chain_inv_AtSelect(2) [OF inv [unfolded p]])
    let ?s' = "goto i name (range_items l []) (s\<lparr>ch := ch s @ [(i, workspaceMetric ns w)]\<rparr>)"
    have st: "step ns config s (Select i ready coin) = Some ?s'"
      by (rule step_Select_send [OF assms(2) assms(3) [unfolded p] sel])
    have g: "g_err ?s' = g_err s"
      by (simp add: range_items_def next_page_def g_err_goto)
    have t: "tasks ?s' ! i = (name, if NextPage (Pagination l) = 0 then Returned None
                        else AtList (NextPage (Pagination l)))"
      using assms(2) by (simp add: range_items_def next_page_def)
    have "\<exists>s'. step ns config s (Select i ready coin) = Some s' \<and>
               g_err s' = g_err s \<and>
               tasks s' ! i =
                 (name, if NextPage (Pagination l) = 0 then Returned None
                        else AtList (NextPage (Pagination l)))"
      by (rule exI [of _ ?s'], intro conjI) (rule st, rule g, rule t)
    with r show "response config (last (calls_of i s)) = Inr l \<and>
            (\<exists>s'. step ns config s (Select i ready coin) = Some s' \<and>
               g_err s' = g_err s \<and>
               tasks s' ! i =
                 (name, if NextPage (Pagination l) = 0 then Returned None
                        else AtList (NextPage (Pagination l))))"
      by (rule conjI)
  qed
  from 1 2 3 4 5 show ?thesis by (intro conjI)
qed

theorem fetch_loop_next_page_witness:
  "hd (pages_of 0 (acme_at_w1 None)) = 1 \<and>
   (\<exists>s'. step ''tf'' (demo_config [''acme'']) (acme_at_w1 None) (Select 0 True False) = Some s' \<and>
      tasks s' ! 0 = (''acme'', AtList 2)) \<and>
   pages_of 0 acme_at_w2 ! 1 = 2 \<and>
   (\<exists>s'. step ''tf'' (demo_config [''acme'']) acme_at_w2 (Select 0 True False) = Some s' \<and>
      tasks s' ! 0 = (''acme'', Returned None)) \<and>
   (\<exists>s'. step ''tf'' (demo_config [''loop'']) loop_at_list (ListReturns 0) = Some s' \<and>
      calls_of 0 s' = [(None, ''loop'', request_options 1)] \<and>
      tasks s' ! 0 = (''loop'', AtList 1))"
proof -
  have i1: "(0::nat) < length (tasks (acme_at_w1 None))"
    and t1: "tasks (acme_at_w1 None) ! 0 = (''acme'', AtSelect acme_page1 w1 [])"
    and c1: "calls_of 0 (acme_at_w1 None) \<noteq> []"
    and sel1: "select_send True (ctx_err (acme_at_w1 None)) False = Some SendCase"
    and n1: "NextPage (Pagination acme_page1) = 2"
    by (simp_all add: acme_at_w1_def calls_of_def select_send_def acme_page1_def)
  note T1 = fetch_loop_next_page [OF acme_at_w1_reached i1 t1]
  from T1 c1 have a: "hd (pages_of 0 (acme_at_w1 None)) = 1"
    by blast
  from T1 sel1 have "\<exists>s'. step ''tf'' (demo_config [''acme'']) (acme_at_w1 None) (Select 0 True False) = Some s' \<and>
      g_err s' = g_err (acme_at_w1 None) \<and>
      tasks s' ! 0 = (''acme'', if NextPage (Pagination acme_page1) = 0 then Returned None
                        else AtList (NextPage (Pagination acme_page1)))"
    by blast
  then have b: "\<exists>s'. step ''tf'' (demo_config [''acme'']) (acme_at_w1 None) (Select 0 True False) = Some s' \<and>
      tasks s' ! 0 = (''acme'', AtList 2)"
    by (auto simp: n1)
  have i2: "(0::nat) < length (tasks acme_at_w2)"
    and t2: "tasks acme_at_w2 ! 0 = (''acme'', AtSelect acme_page2 w2 [])"
    and c2: "Suc 0 < length (calls_of 0 acme_at_w2)"
    and sel2: "select_send True (ctx_err acme_at_w2) False = Some SendCase"
    and n2: "NextPage (Pagination acme_page2) = 0"
    and r2: "response (demo_config [''acme'']) (calls_of 0 acme_at_w2 ! 0) = Inr acme_page1"
    by (simp_all add: acme_at_w2_def calls_of_def select_send_def acme_page2_def response_def
        demo_config_def demo_List_def demo_options_def acme_page1_def)
  note T2 = fetch_loop_next_page [OF acme_at_w2_reached i2 t2]
  from T2 c2 have "\<exists>l. response (demo_config [''acme'']) (calls_of 0 acme_at_w2 ! 0) = Inr l \<and>
      NextPage (Pagination l) \<noteq> 0 \<and> pages_of 0 acme_at_w2 ! Suc 0 = NextPage (Pagination l)"
    by blast
  with r2 n1 have c: "pages_of 0 acme_at_w2 ! 1 = 2"
    by auto
  from T2 sel2 have "\<exists>s'. step ''tf'' (demo_config [''acme'']) acme_at_w2 (Select 0 True False) = Some s' \<and>
      g_err s' = g_err acme_at_w2 \<and>
      tasks s' ! 0 = (''acme'', if NextPage (Pagination acme_page2) = 0 then Returned None
                        else AtList (NextPage (Pagination acme_page2)))"
    by blast
  then have d: "\<exists>s'. step ''tf'' (demo_config [''acme'']) acme_at_w2 (Select 0 True False) = Some s' \<and>
      tasks s' ! 0 = (''acme'', Returned None)"
    by (auto simp: n2)
  let ?l = "\<lparr>Pagination = \<lparr>NextPage = 1\<rparr>, Items = []\<rparr>"
  have i3: "(0::nat) < length (tasks loop_at_list)"
    and t3: "tasks loop_at_list ! 0 = (''loop'', AtList 1)"
    and c3: "calls_of 0 loop_at_list = []"
    and x3: "ctx_err loop_at_list = None"
    and r3: "response (demo_config [''loop'']) (None, ''loop'', request_options 1) = Inr ?l"
    by (simp_all add: loop_at_list_def calls_of_def response_def demo_config_def demo_List_def)
  note T3 = fetch_loop_next_page [OF loop_at_list_reached i3 t3]
  from T3 have "\<exists>s'. step ''tf'' (demo_config [''loop'']) loop_at_list (ListReturns 0) = Some s' \<and>
               calls_of 0 s' = calls_of 0 loop_at_list @ [(ctx_err loop_at_list, ''loop'', request_options 1)] \<and>
               (\<forall>l. response (demo_config [''loop'']) (ctx_err loop_at_list, ''loop'', request_options 1) = Inr l \<and> Items l = [] \<longrightarrow>
                  g_err s' = g_err loop_at_list \<and>
                  tasks s' ! 0 =
                    (''loop'', if NextPage (Pagination l) = 0 then Returned None
                           else AtList (NextPage (Pagination l))))"
    by blast
  then obtain s' where s': "step ''tf'' (demo_config [''loop'']) loop_at_list (ListReturns 0) = Some s'"
    "calls_of 0 s' = calls_of 0 loop_at_list @ [(ctx_err loop_at_list, ''loop'', request_options 1)]"
    "\<forall>l. response (demo_config [''loop'']) (ctx_err loop_at_list, ''loop'', request_options 1) = Inr l \<and> Items l = [] \<longrightarrow>
                  g_err s' = g_err loop_at_list \<and>
                  tasks s' ! 0 =
                    (''loop'', if NextPage (Pagination l) = 0 then Returned None
                           else AtList (NextPage (Pagination l)))"
    by blast
  from s'(3) [rule_format, of ?l] r3 x3 have "tasks s' ! 0 = (''loop'', AtList 1)"
    by simp
  with s'(1,2) c3 x3 have e: "\<exists>s'. step ''tf'' (demo_config [''loop'']) loop_at_list (ListReturns 0) = Some s' \<and>
      calls_of 0 s' = [(None, ''loop'', request_options 1)] \<and>
      tasks s' ! 0 = (''loop'', AtList 1)"
    by auto
  from a b c d e show ?thesis by (intro conjI)
qed

section \<open>Termination of the pagination\<close>

lemma advancingD:
  assumes "advancing config name n" "response config (c, name, request_options page) = Inr l"
    "NextPage (Pagination l) \<noteq> 0"
  shows "page < NextPage (Pagination l)" "NextPage (Pagination l) \<le> n"
  using assms unfolding advancing_def by blast+

lemma adv_inv_list:
  assumes adv: "advancing config name n" and inv: "adv_inv n (AtList page) cs"
  shows "adv_inv n (after_List config c page name) (cs @ [(c, name, request_options page)])"
proof -
  let ?x = "(c, name, request_options page)"
  let ?p = "after_List config c page name"
  from inv have srt: "sorted_wrt (<) (map page_of cs)"
    and bnd: "\<forall>q\<in>set (map page_of cs). 1 \<le> q \<and> q \<le> max 1 n"
    and pg: "1 \<le> page" "page \<le> max 1 n" "\<forall>q\<in>set (map page_of cs). q < page"
    by (simp_all add: adv_inv_def)
  have 1: "sorted_wrt (<) (map page_of (cs @ [?x]))"
    using srt pg(3) by (simp add: sorted_wrt_append)
  have 2: "\<forall>q\<in>set (map page_of (cs @ [?x])). 1 \<le> q \<and> q \<le> max 1 n"
    using bnd pg(1,2) by auto
  have up: "1 \<le> m \<and> m \<le> n \<and> (\<forall>q\<in>set (map page_of (cs @ [?x])). q < m)"
    if "page < m" "m \<le> n" for m
    using that pg by auto
  have 3: "1 \<le> page' \<and> page' \<le> max 1 n \<and> (\<forall>q\<in>set (map page_of (cs @ [?x])). q < page')"
    if "?p = AtList page'" for page'
  proof -
    from that obtain l where l: "response config ?x = Inr l" "NextPage (Pagination l) = page'"
      "page' \<noteq> 0"
      by (auto simp: after_List_AtList)
    from advancingD [OF adv l(1)] l(2,3) have "page < page'" "page' \<le> n" by simp_all
    from up [OF this] show ?thesis by auto
  qed
  have 4: "NextPage (Pagination l) = 0 \<or>
        (1 \<le> NextPage (Pagination l) \<and> NextPage (Pagination l) \<le> n \<and>
         (\<forall>q\<in>set (map page_of (cs @ [?x])). q < NextPage (Pagination l)))"
    if "?p = AtSelect l w ws" for l w ws
  proof (cases "NextPage (Pagination l) = 0")
    case False
    from that have l: "response config ?x = Inr l"
      by (simp add: after_List_AtSelect)
    from advancingD [OF adv l False] have "page < NextPage (Pagination l)"
      "NextPage (Pagination l) \<le> n" .
    from up [OF this] show ?thesis by blast
  qed simp
  show ?thesis
    unfolding adv_inv_def using 1 2 3 4 by (intro conjI allI impI) blast+
qed

lemma adv_inv_send:
  assumes "adv_inv n (AtSelect l w ws) cs"
  shows "adv_inv n (range_items l ws) cs"
proof -
  from assms have srt: "sorted_wrt (<) (map page_of cs)"
    and bnd: "\<forall>q\<in>set (map page_of cs). 1 \<le> q \<and> q \<le> max 1 n"
    and nx: "NextPage (Pagination l) = 0 \<or>
        (1 \<le> NextPage (Pagination l) \<and> NextPage (Pagination l) \<le> n \<and>
         (\<forall>q\<in>set (map page_of cs). q < NextPage (Pagination l)))"
    by (simp_all add: adv_inv_def)
  have 3: "1 \<le> page \<and> page \<le> max 1 n \<and> (\<forall>q\<in>set (map page_of cs). q < page)"
    if "range_items l ws = AtList page" for page
    using that nx by (auto simp: range_items_AtList)
  have 4: "NextPage (Pagination l') = 0 \<or>
        (1 \<le> NextPage (Pagination l') \<and> NextPage (Pagination l') \<le> n \<and>
         (\<forall>q\<in>set (map page_of cs). q < NextPage (Pagination l')))"
    if "range_items l ws = AtSelect l' w' ws'" for l' w' ws'
    using that nx by (simp add: range_items_AtSelect)
  show ?thesis
    unfolding adv_inv_def using srt bnd 3 4 by (intro conjI allI impI) blast+
qed

lemma goroutine_adv_inv:
  assumes "goroutine ns config name p cs ms" "advancing config name n"
  shows "adv_inv n p cs"
  using assms(1)
proof (induction rule: goroutine.induct)
  case g_start
  show ?case by (simp add: adv_inv_def)
next
  case (g_list page cs ms c)
  then show ?case by (simp add: adv_inv_list [OF assms(2)])
next
  case (g_send l w ws cs ms)
  then show ?case by (simp add: adv_inv_send)
next
  case (g_done l w ws cs ms e)
  then show ?case by (simp add: adv_inv_def)
qed

lemma increasing_bounded_length:
  fixes xs :: "int list"
  assumes "sorted_wrt (<) xs" "\<forall>q\<in>set xs. 1 \<le> q \<and> q \<le> m"
  shows "length xs \<le> nat m"
proof -
  from assms(1) have "distinct xs"
    by (simp add: strict_sorted_iff)
  then have "length xs = card (set xs)"
    by (simp add: distinct_card)
  also have "\<dots> \<le> card {1..m}"
    using assms(2) by (intro card_mono) auto
  also have "\<dots> = nat m"
    by simp
  finally show ?thesis .
qed

text \<open>
  A goroutine at a \<open>select\<close> whose sends all go through completes its page; a
  goroutine at an upstream call against an advancing upstream can be run to its
  return.
\<close>

lemma select_send_ready: "select_send True c True = Some SendCase"
  by (simp add: select_send_def split: option.split)

lemma next_page_cases:
  obtains (more) "NextPage (Pagination l) \<noteq> 0" "next_page l = AtList (NextPage (Pagination l))"
  | (last) "NextPage (Pagination l) = 0" "next_page l = Returned None"
  by (cases "NextPage (Pagination l) = 0") (simp_all add: next_page_def)

lemma drain:
  assumes "i < length (tasks s)" "tasks s ! i = (name, AtSelect l w ws)"
  shows "\<exists>s'. steps ns config s (replicate (Suc (length ws)) (Select i True True)) = Some s' \<and>
           tasks s' ! i = (name, next_page l) \<and> length (tasks s') = length (tasks s) \<and>
           ctx_err s' = ctx_err s \<and> g_err s' = g_err s \<and> calls_of i s' = calls_of i s \<and>
           samples_of i s' = samples_of i s @ map (workspaceMetric ns) (w # ws)"
  using assms
proof (induction ws arbitrary: s w)
  case Nil
  let ?s' = "goto i name (range_items l []) (s\<lparr>ch := ch s @ [(i, workspaceMetric ns w)]\<rparr>)"
  have st: "step ns config s (Select i True True) = Some ?s'"
    by (rule step_Select_send [OF Nil(1,2) select_send_ready])
  have r: "range_items l [] = next_page l"
    by (simp add: range_items_def)
  have q: "ctx_err ?s' = ctx_err s" "g_err ?s' = g_err s"
    unfolding r using goto_quiet [of "next_page l"] by (simp_all add: next_page_quiet)
  show ?case
    by (rule exI [of _ ?s']) (use Nil(1) st r q in simp)
next
  case (Cons w' ws')
  let ?s1 = "goto i name (range_items l (w' # ws')) (s\<lparr>ch := ch s @ [(i, workspaceMetric ns w)]\<rparr>)"
  have st: "step ns config s (Select i True True) = Some ?s1"
    by (rule step_Select_send [OF Cons.prems(1,2) select_send_ready])
  have r: "range_items l (w' # ws') = AtSelect l w' ws'"
    by (simp add: range_items_def)
  have i1: "i < length (tasks ?s1)" and t1: "tasks ?s1 ! i = (name, AtSelect l w' ws')"
    using Cons.prems(1) by (simp_all add: r)
  have q: "ctx_err ?s1 = ctx_err s" "g_err ?s1 = g_err s" "length (tasks ?s1) = length (tasks s)"
    "calls_of i ?s1 = calls_of i s" "samples_of i ?s1 = samples_of i s @ [workspaceMetric ns w]"
    unfolding r by (simp_all add: goto_quiet)
  from Cons.IH [OF i1 t1] obtain s' where s':
    "steps ns config ?s1 (replicate (Suc (length ws')) (Select i True True)) = Some s'"
    "tasks s' ! i = (name, next_page l)" "length (tasks s') = length (tasks ?s1)"
    "ctx_err s' = ctx_err ?s1" "g_err s' = g_err ?s1" "calls_of i s' = calls_of i ?s1"
    "samples_of i s' = samples_of i ?s1 @ map (workspaceMetric ns) (w' # ws')"
    by blast
  have "steps ns config s (replicate (Suc (length (w' # ws'))) (Select i True True)) = Some s'"
    using st s'(1) by simp
  with s'(2-7) q show ?case by simp
qed

lemma step_ListReturns_after:
  assumes "i < length (tasks s)" "tasks s ! i = (name, AtList page)"
  shows "\<exists>s'. step ns config s (ListReturns i) = Some s' \<and>
           tasks s' ! i = (name, after_List config (ctx_err s) page name) \<and>
           length (tasks s') = length (tasks s) \<and>
           calls_of i s' = calls_of i s @ [(ctx_err s, name, request_options page)] \<and>
           samples_of i s' = samples_of i s \<and>
           ((\<forall>e. after_List config (ctx_err s) page name \<noteq> Returned (Some e)) \<longrightarrow>
              ctx_err s' = ctx_err s \<and> g_err s' = g_err s)"
proof -
  let ?s' = "goto i name (after_List config (ctx_err s) page name)
      (s\<lparr>calls := calls s @ [(i, ctx_err s, name, request_options page)]\<rparr>)"
  have st: "step ns config s (ListReturns i) = Some ?s'"
    using step_ListReturns [OF assms, of ns config]
    by (simp add: after_List_def request_options_def)
  show ?thesis
    by (rule exI [of _ ?s']) (use assms(1) st in \<open>simp add: goto_quiet\<close>)
qed

lemma complete_from_AtList:
  assumes adv: "advancing config name n"
  shows "i < length (tasks s) \<Longrightarrow> tasks s ! i = (name, AtList page) \<Longrightarrow>
         \<exists>evs s'. set evs \<subseteq> {ListReturns i, Select i True True} \<and>
           steps ns config s evs = Some s' \<and> (\<exists>r. tasks s' ! i = (name, Returned r))"
proof (induction "nat (n - page)" arbitrary: page s rule: less_induct)
  case less
  let ?p = "after_List config (ctx_err s) page name"
  from step_ListReturns_after [OF less.prems, of ns config]
  obtain s1 where s1: "step ns config s (ListReturns i) = Some s1"
    "tasks s1 ! i = (name, ?p)" "length (tasks s1) = length (tasks s)"
    by blast
  from s1(3) less.prems(1) have i1: "i < length (tasks s1)" by simp
  have next_ok: "\<exists>evs s'. set evs \<subseteq> {ListReturns i, Select i True True} \<and>
           steps ns config t evs = Some s' \<and> (\<exists>r. tasks s' ! i = (name, Returned r))"
    if "response config (ctx_err s, name, request_options page) = Inr l"
      "NextPage (Pagination l) \<noteq> 0" "i < length (tasks t)"
      "tasks t ! i = (name, AtList (NextPage (Pagination l)))" for l t
  proof -
    from advancingD [OF adv that(1,2)] have "nat (n - NextPage (Pagination l)) < nat (n - page)"
      by simp
    from less.hyps [OF this that(3,4)] show ?thesis .
  qed
  show ?case
  proof (cases ?p)
    case (Returned r)
    with s1 have "steps ns config s [ListReturns i] = Some s1 \<and> tasks s1 ! i = (name, Returned r)"
      by simp
    then show ?thesis
      by (intro exI [of _ "[ListReturns i]"] exI [of _ s1]) simp
  next
    case (AtList page')
    then obtain l where l: "response config (ctx_err s, name, request_options page) = Inr l"
      "NextPage (Pagination l) = page'" "page' \<noteq> 0"
      by (auto simp: after_List_AtList)
    from next_ok [OF l(1) _ i1] l(2,3) s1(2) AtList
    obtain evs s' where e: "set evs \<subseteq> {ListReturns i, Select i True True}"
      "steps ns config s1 evs = Some s'" "\<exists>r. tasks s' ! i = (name, Returned r)"
      by auto
    from s1(1) e(2) have "steps ns config s (ListReturns i # evs) = Some s'" by simp
    with e(1,3) show ?thesis
      by (intro exI [of _ "ListReturns i # evs"] exI [of _ s']) simp
  next
    case (AtSelect l w ws)
    then have l: "response config (ctx_err s, name, request_options page) = Inr l"
      by (simp add: after_List_AtSelect)
    let ?d = "replicate (Suc (length ws)) (Select i True True)"
    from drain [OF i1 s1(2) [unfolded AtSelect], of ns config]
    obtain s2 where s2: "steps ns config s1 ?d = Some s2" "tasks s2 ! i = (name, next_page l)"
      "length (tasks s2) = length (tasks s1)"
      by blast
    from s1(1) s2(1) have run2: "steps ns config s (ListReturns i # ?d) = Some s2" by simp
    have sub2: "set (ListReturns i # ?d) \<subseteq> {ListReturns i, Select i True True}" by auto
    show ?thesis
    proof (cases l rule: next_page_cases)
      case last
      with s2(2) have "tasks s2 ! i = (name, Returned None)" by simp
      with run2 sub2 show ?thesis by blast
    next
      case more
      from s2(3) i1 have i2: "i < length (tasks s2)" by simp
      from next_ok [OF l more(1) i2] s2(2) more(2)
      obtain evs s' where e: "set evs \<subseteq> {ListReturns i, Select i True True}"
        "steps ns config s2 evs = Some s'" "\<exists>r. tasks s' ! i = (name, Returned r)"
        by auto
      from run2 e(2) have "steps ns config s ((ListReturns i # ?d) @ evs) = Some s'"
        by (simp only: steps_append option.simps)
      moreover from sub2 e(1) have "set ((ListReturns i # ?d) @ evs) \<subseteq> {ListReturns i, Select i True True}"
        by simp
      ultimately show ?thesis using e(3) by blast
    qed
  qed
qed

text \<open>
  C8, as the code has it. Against an upstream that advances for the organization of
  goroutine \<open>i\<close> with bound \<open>n\<close>, in every state a schedule of \<open>Scrape\<close> can reach:
  the pages goroutine \<open>i\<close> has requested are strictly increasing and lie between 1 and
  \<open>max 1 n\<close>, so there are at most \<open>max 1 n\<close> of them; and there is a schedule of steps
  of goroutine \<open>i\<close> alone after which it has returned.
\<close>

theorem pagination_terminates:
  assumes "Scrape ns c config evs = Some s"
      and "i < length (tasks s)"
      and "advancing config (fst (tasks s ! i)) n"
  shows "sorted_wrt (<) (pages_of i s) \<and>
         (\<forall>p\<in>set (pages_of i s). 1 \<le> p \<and> p \<le> max 1 n) \<and>
         length (pages_of i s) \<le> nat (max 1 n) \<and>
         (\<exists>evs' s'. set evs' \<subseteq> {ListReturns i, Select i True True} \<and>
            steps ns config s evs' = Some s' \<and> (\<exists>r. snd (tasks s' ! i) = Returned r))"
proof -
  obtain name p where t: "tasks s ! i = (name, p)" by (cases "tasks s ! i")
  with assms(3) have adv: "advancing config name n" by simp
  have "goroutine ns config name p (calls_of i s) (samples_of i s)"
    using goroutine_Scrape [OF assms(1,2)] t by simp
  then have "adv_inv n p (calls_of i s)"
    using adv by (rule goroutine_adv_inv)
  then have 1: "sorted_wrt (<) (pages_of i s)"
    and 2: "\<forall>p\<in>set (pages_of i s). 1 \<le> p \<and> p \<le> max 1 n"
    by (simp_all add: adv_inv_def pages_of_page_of)
  from 1 2 have 3: "length (pages_of i s) \<le> nat (max 1 n)"
    by (rule increasing_bounded_length)
  have 4: "\<exists>evs' s'. set evs' \<subseteq> {ListReturns i, Select i True True} \<and>
            steps ns config s evs' = Some s' \<and> (\<exists>r. snd (tasks s' ! i) = Returned r)"
  proof (cases p)
    case (Returned r)
    with t have "steps ns config s [] = Some s \<and> snd (tasks s ! i) = Returned r" by simp
    then show ?thesis
      by (intro exI [of _ "[]"] exI [of _ s]) simp
  next
    case (AtList page)
    from complete_from_AtList [OF adv assms(2) t [unfolded AtList], of ns]
    show ?thesis by (metis snd_conv)
  next
    case (AtSelect l w ws)
    let ?d = "replicate (Suc (length ws)) (Select i True True)"
    from drain [OF assms(2) t [unfolded AtSelect], of ns config]
    obtain s2 where s2: "steps ns config s ?d = Some s2" "tasks s2 ! i = (name, next_page l)"
      "length (tasks s2) = length (tasks s)"
      by blast
    have sub2: "set ?d \<subseteq> {ListReturns i, Select i True True}" by auto
    show ?thesis
    proof (cases l rule: next_page_cases)
      case last
      with s2(2) have "snd (tasks s2 ! i) = Returned None" by simp
      with s2(1) sub2 show ?thesis by blast
    next
      case more
      from s2(3) assms(2) have i2: "i < length (tasks s2)" by simp
      from complete_from_AtList [OF adv i2 s2(2) [unfolded more(2)], of ns]
      obtain evs' s' where e: "set evs' \<subseteq> {ListReturns i, Select i True True}"
        "steps ns config s2 evs' = Some s'" "\<exists>r. tasks s' ! i = (name, Returned r)"
        by blast
      from s2(1) e(2) have "steps ns config s (?d @ evs') = Some s'"
        by (simp only: steps_append option.simps)
      moreover from sub2 e(1) have "set (?d @ evs') \<subseteq> {ListReturns i, Select i True True}"
        by simp
      moreover from e(3) have "\<exists>r. snd (tasks s' ! i) = Returned r" by auto
      ultimately show ?thesis by blast
    qed
  qed
  from 1 2 3 4 show ?thesis by (intro conjI)
qed

lemma acme_advancing: "advancing (demo_config [''acme'']) ''acme'' 2"
  by (auto simp: advancing_def response_def demo_config_def demo_List_def request_options_def
      split: if_splits)

theorem pagination_terminates_witness:
  "advancing (demo_config [''acme'']) (fst (tasks acme_at_w2 ! 0)) 2 \<and>
   pages_of 0 acme_at_w2 = [1, 2] \<and>
   sorted_wrt (<) (pages_of 0 acme_at_w2) \<and>
   length (pages_of 0 acme_at_w2) \<le> 2 \<and>
   (\<exists>evs' s'. set evs' \<subseteq> {ListReturns 0, Select 0 True True} \<and>
      steps ''tf'' (demo_config [''acme'']) acme_at_w2 evs' = Some s' \<and>
      (\<exists>r. snd (tasks s' ! 0) = Returned r))"
proof -
  have i: "(0::nat) < length (tasks acme_at_w2)"
    and n: "fst (tasks acme_at_w2 ! 0) = ''acme''"
    and p: "pages_of 0 acme_at_w2 = [1, 2]"
    by (simp_all add: acme_at_w2_def pages_of_def calls_of_def demo_options_def)
  have a: "advancing (demo_config [''acme'']) (fst (tasks acme_at_w2 ! 0)) 2"
    unfolding n by (rule acme_advancing)
  from pagination_terminates [OF acme_at_w2_reached i a] a p show ?thesis
    by simp
qed

text \<open>
  C8, as stated, speaks of every upstream. The organization \<open>loop\<close> answers the request
  for page 1 with an empty page whose next page is 1: after three upstream calls the
  goroutine has requested the pages 1, 1, 1 and is about to request page 1 again, with
  no error in the group and the context live.
\<close>

theorem pagination_repeats_page:
  "map_option (\<lambda>s. (pages_of 0 s, tasks s, g_err s, ctx_err s))
     (Scrape ''tf'' None (demo_config [''loop''])
        [Go, ListReturns 0, ListReturns 0, ListReturns 0])
   = Some ([1, 1, 1], [(''loop'', AtList 1)], None, None)"
  by code_simp

text \<open>
  And so on for ever: after any number of upstream calls the goroutine is where it
  started.
\<close>

lemma pagination_never_ends:
  "Scrape ''tf'' None (demo_config [''loop'']) (Go # replicate n (ListReturns 0)) =
     Some (loop_at_list\<lparr>calls := replicate n (0, None, ''loop'', request_options 1)\<rparr>)"
proof (induction n)
  case 0
  show ?case using loop_at_list_reached by (simp add: loop_at_list_def)
next
  case (Suc n)
  let ?s = "loop_at_list\<lparr>calls := replicate n (0, None, ''loop'', request_options 1)\<rparr>"
  have "step ''tf'' (demo_config [''loop'']) ?s (ListReturns 0) =
          Some (loop_at_list\<lparr>calls := replicate (Suc n) (0, None, ''loop'', request_options 1)\<rparr>)"
    by (simp add: step.simps loop_at_list_def getWorkspacesListPage_List_def demo_config_def
        demo_List_def goto_def range_items_def next_page_def request_options_def
        replicate_append_same)
  moreover have "Go # replicate (Suc n) (ListReturns 0) = (Go # replicate n (ListReturns 0)) @ [ListReturns 0]"
    by (simp add: replicate_append_same)
  ultimately show ?case
    using Suc unfolding Scrape_def by (simp only: steps_append option.simps steps.simps)
qed

section \<open>Every record once, in order\<close>

lemma page_numbers_Suc: "page_numbers (Suc k) = page_numbers k @ [int k + 1]"
  by (simp add: page_numbers_def)

lemma concat_take_Suc:
  "k < length pages \<Longrightarrow> concat (take (Suc k) pages) = concat (take k pages) @ pages ! k"
  by (simp add: take_Suc_conv_app_nth)

lemma NextPage_page_response:
  "NextPage (Pagination (page_response pages k)) = (if Suc k < length pages then int k + 2 else 0)"
  by (simp add: page_response_def)

lemma Items_page_response: "Items (page_response pages k) = pages ! k"
  by (simp add: page_response_def)

text \<open>
  The invariant after the last record of page \<open>k\<close>, in the \<open>range\<close> loop over it, after
  its upstream call, and after a send.
\<close>

lemma fetch_inv_page_done:
  assumes k: "k < length pages"
    and nx: "NextPage (Pagination l) = NextPage (Pagination (page_response pages k))"
    and ms: "ms = map (workspaceMetric ns) (concat (take (Suc k) pages))"
    and cs: "map page_of cs = page_numbers (Suc k)"
  shows "fetch_inv ns pages (next_page l) cs ms"
proof (cases "Suc k < length pages")
  case True
  with nx have "next_page l = AtList (int (Suc k) + 1)"
    by (simp add: next_page_def NextPage_page_response)
  with True ms cs show ?thesis
    by (auto simp: fetch_inv_def)
next
  case False
  with k have e: "Suc k = length pages" by simp
  from False nx have "next_page l = Returned None"
    by (simp add: next_page_def NextPage_page_response)
  with ms cs e show ?thesis
    by (simp add: fetch_inv_def)
qed

lemma fetch_inv_items:
  assumes k: "k < length pages"
    and nx: "NextPage (Pagination l) = NextPage (Pagination (page_response pages k))"
    and ms: "ms @ map (workspaceMetric ns) ws = map (workspaceMetric ns) (concat (take (Suc k) pages))"
    and cs: "map page_of cs = page_numbers (Suc k)"
  shows "fetch_inv ns pages (range_items l ws) cs ms"
proof (cases ws)
  case Nil
  with ms have "ms = map (workspaceMetric ns) (concat (take (Suc k) pages))" by simp
  from fetch_inv_page_done [OF k nx this cs] Nil show ?thesis
    by (simp add: range_items_def)
next
  case (Cons w ws')
  then have "range_items l ws = AtSelect l w ws'" by (simp add: range_items_def)
  with k nx ms cs Cons show ?thesis
    by (auto simp: fetch_inv_def)
qed

lemma fetch_inv_list:
  assumes srv: "serves config name pages" and inv: "fetch_inv ns pages (AtList page) cs ms"
  shows "fetch_inv ns pages (after_List config c page name)
           (cs @ [(c, name, request_options page)]) ms"
proof (cases "c = None \<and> (\<forall>x\<in>set cs. fst x = None)")
  case False
  then show ?thesis by (auto simp: fetch_inv_def)
next
  case True
  with inv obtain k where k: "k < length pages" "page = int k + 1"
    "ms = map (workspaceMetric ns) (concat (take k pages))" "map page_of cs = page_numbers k"
    unfolding fetch_inv_def by blast
  from srv k(1,2) True have r: "response config (c, name, request_options page) =
      Inr (page_response pages k)"
    by (simp add: serves_def)
  then have a: "after_List config c page name =
      range_items (page_response pages k) (pages ! k)"
    by (simp add: after_List_def getWorkspacesListPage_List_response Items_page_response)
  have ms: "ms @ map (workspaceMetric ns) (pages ! k) =
      map (workspaceMetric ns) (concat (take (Suc k) pages))"
    using k(1,3) by (simp add: concat_take_Suc)
  have cs: "map page_of (cs @ [(c, name, request_options page)]) = page_numbers (Suc k)"
    using k(2,4) by (simp add: page_numbers_Suc)
  show ?thesis
    unfolding a by (rule fetch_inv_items [OF k(1) refl ms cs])
qed

lemma fetch_inv_send:
  assumes inv: "fetch_inv ns pages (AtSelect l w ws) cs ms"
  shows "fetch_inv ns pages (range_items l ws) cs (ms @ [workspaceMetric ns w])"
proof (cases "\<forall>x\<in>set cs. fst x = None")
  case False
  then show ?thesis unfolding fetch_inv_def by blast
next
  case True
  with inv obtain k where k: "k < length pages"
    "NextPage (Pagination l) = NextPage (Pagination (page_response pages k))"
    "ms @ map (workspaceMetric ns) (w # ws) = map (workspaceMetric ns) (concat (take (Suc k) pages))"
    "map page_of cs = page_numbers (Suc k)"
    unfolding fetch_inv_def by blast
  from k(3) have ms: "(ms @ [workspaceMetric ns w]) @ map (workspaceMetric ns) ws =
      map (workspaceMetric ns) (concat (take (Suc k) pages))"
    by simp
  show ?thesis
    by (rule fetch_inv_items [OF k(1,2) ms k(4)])
qed

lemma goroutine_fetch_inv:
  assumes "goroutine ns config name p cs ms" "serves config name pages"
  shows "fetch_inv ns pages p cs ms"
  using assms(1)
proof (induction rule: goroutine.induct)
  case g_start
  from assms(2) have "pages \<noteq> []" by (simp add: serves_def)
  then show ?case by (simp add: fetch_inv_def page_numbers_def)
next
  case (g_list page cs ms c)
  then show ?case by (simp add: fetch_inv_list [OF assms(2)])
next
  case (g_send l w ws cs ms)
  then show ?case by (simp add: fetch_inv_send)
next
  case (g_done l w ws cs ms e)
  then show ?case by (simp add: fetch_inv_def)
qed

lemma fetch_inv_Scrape:
  assumes "Scrape ns c config evs = Some s" "i < length (tasks s)" "tasks s ! i = (name, p)"
    "serves config name pages"
  shows "fetch_inv ns pages p (calls_of i s) (samples_of i s)"
proof -
  have "goroutine ns config name p (calls_of i s) (samples_of i s)"
    using goroutine_Scrape [OF assms(1,2)] assms(3) by simp
  then show ?thesis using assms(4) by (rule goroutine_fetch_inv)
qed

text \<open>
  One page run from the upstream call to the loop condition, and a goroutine run from
  the call for page \<open>k + 1\<close> to its return, under a live context.
\<close>

lemma page_run:
  assumes i: "i < length (tasks s)" and t: "tasks s ! i = (name, AtList page)"
    and r: "response config (ctx_err s, name, request_options page) = Inr l"
  shows "\<exists>evs s'. set evs \<subseteq> {ListReturns i, Select i True True} \<and>
           steps ns config s evs = Some s' \<and> tasks s' ! i = (name, next_page l) \<and>
           length (tasks s') = length (tasks s) \<and> ctx_err s' = ctx_err s \<and>
           calls_of i s' = calls_of i s @ [(ctx_err s, name, request_options page)]"
proof -
  have a: "after_List config (ctx_err s) page name = range_items l (Items l)"
    using r by (simp add: after_List_def getWorkspacesListPage_List_response)
  have q: "range_items l (Items l) \<noteq> Returned (Some e)" for e
    by (simp add: range_items_Returned)
  from step_ListReturns_after [OF i t, of ns config] a q
  obtain s1 where s1: "step ns config s (ListReturns i) = Some s1"
    "tasks s1 ! i = (name, range_items l (Items l))" "length (tasks s1) = length (tasks s)"
    "calls_of i s1 = calls_of i s @ [(ctx_err s, name, request_options page)]"
    "ctx_err s1 = ctx_err s"
    by auto
  show ?thesis
  proof (cases "Items l")
    case Nil
    with s1(2) have "tasks s1 ! i = (name, next_page l)" by (simp add: range_items_def)
    moreover from s1(1) have "steps ns config s [ListReturns i] = Some s1" by simp
    ultimately show ?thesis using s1(3,4,5)
      by (intro exI [of _ "[ListReturns i]"] exI [of _ s1]) simp
  next
    case (Cons w ws)
    with s1(2) have t1: "tasks s1 ! i = (name, AtSelect l w ws)" by (simp add: range_items_def)
    from s1(3) i have i1: "i < length (tasks s1)" by simp
    let ?d = "replicate (Suc (length ws)) (Select i True True)"
    from drain [OF i1 t1, of ns config]
    obtain s2 where s2: "steps ns config s1 ?d = Some s2" "tasks s2 ! i = (name, next_page l)"
      "length (tasks s2) = length (tasks s1)" "ctx_err s2 = ctx_err s1"
      "calls_of i s2 = calls_of i s1"
      by blast
    from s1(1) s2(1) have "steps ns config s (ListReturns i # ?d) = Some s2" by simp
    moreover have "set (ListReturns i # ?d) \<subseteq> {ListReturns i, Select i True True}" by auto
    ultimately show ?thesis using s2(2-5) s1(3,4,5)
      by (intro exI [of _ "ListReturns i # ?d"] exI [of _ s2]) simp
  qed
qed

lemma fetch_completes:
  assumes srv: "serves config name pages"
  shows "i < length (tasks s) \<Longrightarrow> tasks s ! i = (name, AtList (int k + 1)) \<Longrightarrow>
         k < length pages \<Longrightarrow> ctx_err s = None \<Longrightarrow> \<forall>x\<in>set (calls_of i s). fst x = None \<Longrightarrow>
         \<exists>evs s'. set evs \<subseteq> {ListReturns i, Select i True True} \<and>
           steps ns config s evs = Some s' \<and> tasks s' ! i = (name, Returned None) \<and>
           length (tasks s') = length (tasks s) \<and> (\<forall>x\<in>set (calls_of i s'). fst x = None)"
proof (induction "length pages - k" arbitrary: k s rule: less_induct)
  case less
  let ?l = "page_response pages k"
  from srv less.prems(3,4) have r: "response config (ctx_err s, name, request_options (int k + 1)) = Inr ?l"
    by (simp add: serves_def)
  from page_run [OF less.prems(1,2) r, of ns] less.prems(4,5)
  obtain evs s2 where s2: "set evs \<subseteq> {ListReturns i, Select i True True}"
    "steps ns config s evs = Some s2" "tasks s2 ! i = (name, next_page ?l)"
    "length (tasks s2) = length (tasks s)" "ctx_err s2 = None"
    "\<forall>x\<in>set (calls_of i s2). fst x = None"
    by auto
  show ?case
  proof (cases "Suc k < length pages")
    case False
    then have "next_page ?l = Returned None"
      by (simp add: next_page_def NextPage_page_response)
    with s2(3) have "tasks s2 ! i = (name, Returned None)" by simp
    with s2(1,2,4,6) show ?thesis by blast
  next
    case True
    then have "next_page ?l = AtList (int (Suc k) + 1)"
      by (simp add: next_page_def NextPage_page_response)
    with s2(3) have t2: "tasks s2 ! i = (name, AtList (int (Suc k) + 1))" by simp
    from s2(4) less.prems(1) have i2: "i < length (tasks s2)" by simp
    from True have m: "length pages - Suc k < length pages - k" by simp
    from less.hyps [OF m i2 t2 True s2(5,6)]
    obtain evs' s' where e: "set evs' \<subseteq> {ListReturns i, Select i True True}"
      "steps ns config s2 evs' = Some s'" "tasks s' ! i = (name, Returned None)"
      "length (tasks s') = length (tasks s2)" "\<forall>x\<in>set (calls_of i s'). fst x = None"
      by blast
    from s2(2) e(2) have "steps ns config s (evs @ evs') = Some s'"
      by (simp only: steps_append option.simps)
    moreover from s2(1) e(1) have "set (evs @ evs') \<subseteq> {ListReturns i, Select i True True}"
      by simp
    ultimately show ?thesis using e(3,4,5) s2(4)
      by (intro exI [of _ "evs @ evs'"] exI [of _ s']) simp
  qed
qed

text \<open>
  C7. The upstream serves the pages \<open>pages\<close> for the organization of goroutine \<open>i\<close>,
  and every upstream call of goroutine \<open>i\<close> so far was made under a live context. Then,
  in every state a schedule of \<open>Scrape\<close> can reach:
  \<^item> if goroutine \<open>i\<close> has returned \<open>nil\<close>, it has requested the pages
    1 to \<open>length pages\<close> in this order, and what it has sent is the sample of every
    record of every page, in the order of the pages and of the records in a page: one
    sample per record, none twice, none left out;
  \<^item> if the context is live, there is a schedule of steps of goroutine \<open>i\<close> alone after
    which it has returned \<open>nil\<close> and has sent exactly these samples.
\<close>

theorem fetch_emits_every_record_once:
  assumes "Scrape ns c config evs = Some s"
      and "i < length (tasks s)"
      and "tasks s ! i = (name, p)"
      and "serves config name pages"
      and "\<forall>x\<in>set (calls_of i s). fst x = None"
  shows "(p = Returned None \<longrightarrow>
            samples_of i s = map (workspaceMetric ns) (concat pages) \<and>
            pages_of i s = page_numbers (length pages)) \<and>
         (ctx_err s = None \<longrightarrow>
            (\<exists>evs' s'. set evs' \<subseteq> {ListReturns i, Select i True True} \<and>
               steps ns config s evs' = Some s' \<and> tasks s' ! i = (name, Returned None) \<and>
               samples_of i s' = map (workspaceMetric ns) (concat pages)))"
proof -
  have inv: "fetch_inv ns pages p (calls_of i s) (samples_of i s)"
    by (rule fetch_inv_Scrape [OF assms(1-4)])
  have 1: "p = Returned None \<longrightarrow>
            samples_of i s = map (workspaceMetric ns) (concat pages) \<and>
            pages_of i s = page_numbers (length pages)"
    using inv assms(5) unfolding fetch_inv_def pages_of_page_of by blast
  have 2: "\<exists>evs' s'. set evs' \<subseteq> {ListReturns i, Select i True True} \<and>
               steps ns config s evs' = Some s' \<and> tasks s' ! i = (name, Returned None) \<and>
               samples_of i s' = map (workspaceMetric ns) (concat pages)"
    if live: "ctx_err s = None"
  proof -
    have fin: "\<exists>evs' s'. set evs' \<subseteq> {ListReturns i, Select i True True} \<and>
           steps ns config s evs' = Some s' \<and> tasks s' ! i = (name, Returned None) \<and>
           length (tasks s') = length (tasks s) \<and> (\<forall>x\<in>set (calls_of i s'). fst x = None)"
    proof (cases p)
      case (Returned r)
      have "r = None"
      proof (cases r)
        case (Some e)
        from errgroup_inv_Scrape [OF assms(1)] assms(2,3) Returned Some live
        show ?thesis unfolding errgroup_inv_def by (metis snd_conv)
      qed simp
      with Returned assms(3,5) have "steps ns config s [] = Some s \<and>
          tasks s ! i = (name, Returned None) \<and> (\<forall>x\<in>set (calls_of i s). fst x = None)"
        by simp
      then show ?thesis
        by (intro exI [of _ "[]"] exI [of _ s]) simp
    next
      case (AtList page)
      with inv assms(5) obtain k where k: "k < length pages" "page = int k + 1"
        unfolding fetch_inv_def by blast
      show ?thesis
        by (rule fetch_completes [OF assms(4,2) assms(3) [unfolded AtList k(2)] k(1) live assms(5)])
    next
      case (AtSelect l w ws)
      with inv assms(5) obtain k where k: "k < length pages"
        "NextPage (Pagination l) = NextPage (Pagination (page_response pages k))"
        unfolding fetch_inv_def by blast
      let ?d = "replicate (Suc (length ws)) (Select i True True)"
      from drain [OF assms(2) assms(3) [unfolded AtSelect], of ns config] live assms(5)
      obtain s2 where s2: "steps ns config s ?d = Some s2" "tasks s2 ! i = (name, next_page l)"
        "length (tasks s2) = length (tasks s)" "ctx_err s2 = None"
        "\<forall>x\<in>set (calls_of i s2). fst x = None"
        by auto
      have sub2: "set ?d \<subseteq> {ListReturns i, Select i True True}" by auto
      show ?thesis
      proof (cases "Suc k < length pages")
        case False
        with k(2) have "next_page l = Returned None"
          by (simp add: next_page_def NextPage_page_response)
        with s2(2) have "tasks s2 ! i = (name, Returned None)" by simp
        with s2(1,3,5) sub2 show ?thesis by blast
      next
        case True
        with k(2) have "next_page l = AtList (int (Suc k) + 1)"
          by (simp add: next_page_def NextPage_page_response)
        with s2(2) have t2: "tasks s2 ! i = (name, AtList (int (Suc k) + 1))" by simp
        from s2(3) assms(2) have i2: "i < length (tasks s2)" by simp
        from fetch_completes [OF assms(4) i2 t2 True s2(4,5), of ns]
        obtain evs' s' where e: "set evs' \<subseteq> {ListReturns i, Select i True True}"
          "steps ns config s2 evs' = Some s'" "tasks s' ! i = (name, Returned None)"
          "length (tasks s') = length (tasks s2)" "\<forall>x\<in>set (calls_of i s'). fst x = None"
          by blast
        from s2(1) e(2) have "steps ns config s (?d @ evs') = Some s'"
          by (simp only: steps_append option.simps)
        moreover from sub2 e(1) have "set (?d @ evs') \<subseteq> {ListReturns i, Select i True True}"
          by simp
        ultimately show ?thesis using e(3,4,5) s2(3)
          by (intro exI [of _ "?d @ evs'"] exI [of _ s']) simp
      qed
    qed
    then obtain evs' s' where e: "set evs' \<subseteq> {ListReturns i, Select i True True}"
      "steps ns config s evs' = Some s'" "tasks s' ! i = (name, Returned None)"
      "length (tasks s') = length (tasks s)" "\<forall>x\<in>set (calls_of i s'). fst x = None"
      by blast
    from assms(1) e(2) have run': "Scrape ns c config (evs @ evs') = Some s'"
      unfolding Scrape_def by (simp only: steps_append option.simps)
    from e(4) assms(2) have i': "i < length (tasks s')" by simp
    have "fetch_inv ns pages (Returned None) (calls_of i s') (samples_of i s')"
      by (rule fetch_inv_Scrape [OF run' i' e(3) assms(4)])
    with e(5) have "samples_of i s' = map (workspaceMetric ns) (concat pages)"
      unfolding fetch_inv_def by blast
    with e(1,2,3) show ?thesis by blast
  qed
  from 1 2 show ?thesis by blast
qed

lemma acme_serves: "serves (demo_config [''acme'']) ''acme'' [[w1], [w2]]"
  by (auto simp: serves_def response_def demo_config_def demo_List_def request_options_def
      page_response_def pageSize_def less_Suc_eq numeral_2_eq_2)

theorem fetch_emits_every_record_once_witness:
  "serves (demo_config [''acme'']) ''acme'' [[w1], [w2]] \<and>
   (\<exists>s. Scrape ''tf'' None (demo_config [''acme'']) acme_schedule = Some s \<and>
      tasks s = [(''acme'', Returned None)] \<and>
      samples_of 0 s = [workspaceMetric ''tf'' w1, workspaceMetric ''tf'' w2] \<and>
      pages_of 0 s = [1, 2]) \<and>
   (\<exists>evs' s'. steps ''tf'' (demo_config [''acme'']) (acme_at_w1 None) evs' = Some s' \<and>
      tasks s' ! 0 = (''acme'', Returned None) \<and>
      samples_of 0 s' = [workspaceMetric ''tf'' w1, workspaceMetric ''tf'' w2])"
proof -
  let ?cfg = "demo_config [''acme'']"
  note srv = acme_serves
  have all: "map (workspaceMetric ''tf'') (concat [[w1], [w2]]) =
      [workspaceMetric ''tf'' w1, workspaceMetric ''tf'' w2]"
    by simp
  have pn: "page_numbers (length [[w1], [w2]]) = [1, 2]"
    by (simp add: page_numbers_def numeral_2_eq_2 upt_rec)
  have "Scrape ''tf'' None ?cfg acme_schedule \<noteq> None"
    unfolding acme_schedule_def by code_simp
  then obtain s where s: "Scrape ''tf'' None ?cfg acme_schedule = Some s" by blast
  have "map_option (\<lambda>s. (tasks s, map fst (calls_of 0 s))) (Scrape ''tf'' None ?cfg acme_schedule)
      = Some ([(''acme'', Returned None)], [None, None])"
    unfolding acme_schedule_def by code_simp
  with s have ts: "tasks s = [(''acme'', Returned None)]"
    and cs: "map fst (calls_of 0 s) = [None, None]"
    by simp_all
  from ts have i: "0 < length (tasks s)" and t: "tasks s ! 0 = (''acme'', Returned None)"
    by simp_all
  from cs have "set (map fst (calls_of 0 s)) = {None}" by simp
  then have live: "\<forall>x\<in>set (calls_of 0 s). fst x = None" by auto
  from fetch_emits_every_record_once [OF s i t srv live] all pn
  have a: "samples_of 0 s = [workspaceMetric ''tf'' w1, workspaceMetric ''tf'' w2] \<and>
      pages_of 0 s = [1, 2]"
    by simp
  have i1: "(0::nat) < length (tasks (acme_at_w1 None))"
    and t1: "tasks (acme_at_w1 None) ! 0 = (''acme'', AtSelect acme_page1 w1 [])"
    and live1: "\<forall>x\<in>set (calls_of 0 (acme_at_w1 None)). fst x = None"
    and c1: "ctx_err (acme_at_w1 None) = None"
    by (simp_all add: acme_at_w1_def calls_of_def)
  from fetch_emits_every_record_once [OF acme_at_w1_reached i1 t1 srv live1] c1 all
  have b: "\<exists>evs' s'. steps ''tf'' ?cfg (acme_at_w1 None) evs' = Some s' \<and>
      tasks s' ! 0 = (''acme'', Returned None) \<and>
      samples_of 0 s' = [workspaceMetric ''tf'' w1, workspaceMetric ''tf'' w2]"
    by auto
  from s ts a have c: "\<exists>s. Scrape ''tf'' None ?cfg acme_schedule = Some s \<and>
      tasks s = [(''acme'', Returned None)] \<and>
      samples_of 0 s = [workspaceMetric ''tf'' w1, workspaceMetric ''tf'' w2] \<and>
      pages_of 0 s = [1, 2]"
    by blast
  from srv c b show ?thesis by (intro conjI)
qed

end
